theory Spec2Isabelle
  imports Main "HOL-Library.Monad_Syntax"
begin

section \<open>Python strings\<close>

text \<open>
  A Python \<^verbatim>\<open>str\<close> is a sequence of Unicode code points; \<^verbatim>\<open>len\<close>, slicing and the
  \<^verbatim>\<open>re\<close> module all count code points. A code point is a natural number, a string a
  list of them. \<open>str\<close> embeds an ASCII literal; the characters that an Isabelle string
  literal cannot hold are written by their code.
\<close>

type_synonym cp = nat
type_synonym pystr = "cp list"

definition str :: "string \<Rightarrow> pystr" where
  "str s = map of_char s"

abbreviation BS :: cp where "BS \<equiv> 92"
abbreviation NL :: cp where "NL \<equiv> 10"
abbreviation DQ :: cp where "DQ \<equiv> 34"
abbreviation SQ :: cp where "SQ \<equiv> 39"

text \<open>
  Whitespace as \<^verbatim>\<open>str.strip\<close>, \<^verbatim>\<open>str.isspace\<close> and the pattern \<^verbatim>\<open>\s\<close> see it
  (CPython's \<^verbatim>\<open>_PyUnicode_IsWhitespace\<close>).
\<close>

definition isspace :: "cp \<Rightarrow> bool" where
  "isspace c \<longleftrightarrow>
     (9 \<le> c \<and> c \<le> 13) \<or> (28 \<le> c \<and> c \<le> 32) \<or> c = 133 \<or> c = 160 \<or> c = 5760 \<or>
     (8192 \<le> c \<and> c \<le> 8202) \<or> c = 8232 \<or> c = 8233 \<or> c = 8239 \<or> c = 8287 \<or> c = 12288"

definition ascii_upper_letter :: "cp \<Rightarrow> bool" where
  "ascii_upper_letter c \<longleftrightarrow> 65 \<le> c \<and> c \<le> 90"

definition ascii_lower_letter :: "cp \<Rightarrow> bool" where
  "ascii_lower_letter c \<longleftrightarrow> 97 \<le> c \<and> c \<le> 122"

definition ascii_letter :: "cp \<Rightarrow> bool" where
  "ascii_letter c \<longleftrightarrow> ascii_upper_letter c \<or> ascii_lower_letter c"

definition ascii_digit :: "cp \<Rightarrow> bool" where
  "ascii_digit c \<longleftrightarrow> 48 \<le> c \<and> c \<le> 57"

definition ascii_lower :: "cp \<Rightarrow> cp" where
  "ascii_lower c = (if ascii_upper_letter c then c + 32 else c)"

definition ascii_upper :: "cp \<Rightarrow> cp" where
  "ascii_upper c = (if ascii_lower_letter c then c - 32 else c)"

text \<open>
  The classes \<^verbatim>\<open>\d\<close> and \<^verbatim>\<open>\w\<close> and the method \<^verbatim>\<open>str.lower\<close> read the Unicode
  character database of the interpreter, which is no part of the program: the
  functions that use them take it as a parameter.
\<close>

record unicode =
  u_digit :: "cp \<Rightarrow> bool"
  u_word :: "cp \<Rightarrow> bool"
  u_lower :: "pystr \<Rightarrow> pystr"

text \<open>The database cut down to ASCII: what every Unicode database does on ASCII text.\<close>

definition ascii_only :: unicode where
  "ascii_only = \<lparr>u_digit = ascii_digit,
     u_word = (\<lambda>c. ascii_letter c \<or> ascii_digit c \<or> c = 95),
     u_lower = map ascii_lower\<rparr>"

text \<open>
  A letter of a pattern compiled with \<^verbatim>\<open>re.IGNORECASE\<close> matches its two ASCII cases
  and the non-ASCII characters that \<^verbatim>\<open>re\<close> folds onto it (the Kelvin sign for k, the
  long s for s, the dotted capital and the dotless small i for i); any other ASCII
  character of a pattern matches itself only. The patterns of this program are ASCII.
\<close>

definition ci_eq :: "cp \<Rightarrow> cp \<Rightarrow> bool" where
  "ci_eq p t \<longleftrightarrow>
     (if ascii_letter p
      then t = ascii_lower p \<or> t = ascii_upper p \<or>
           (ascii_lower p = 107 \<and> t = 8490) \<or>
           (ascii_lower p = 115 \<and> t = 383) \<or>
           (ascii_lower p = 105 \<and> (t = 304 \<or> t = 305))
      else t = p)"

definition strip :: "pystr \<Rightarrow> pystr" where
  "strip s = rev (dropWhile isspace (rev (dropWhile isspace s)))"

fun split_nl :: "pystr \<Rightarrow> pystr list" where
  "split_nl [] = [[]]"
| "split_nl (c # cs) =
     (if c = NL then [] # split_nl cs
      else (case split_nl cs of [] \<Rightarrow> [[c]] | l # ls \<Rightarrow> (c # l) # ls))"

fun join_nl :: "pystr list \<Rightarrow> pystr" where
  "join_nl [] = []"
| "join_nl [l] = l"
| "join_nl (l # ls) = l @ NL # join_nl ls"

text \<open>\<^verbatim>\<open>sub in s\<close>, the substring test.\<close>

fun contains :: "pystr \<Rightarrow> pystr \<Rightarrow> bool" where
  "contains [] sub = (sub = [])"
| "contains (c # cs) sub = (take (length sub) (c # cs) = sub \<or> contains cs sub)"

text \<open>\<^verbatim>\<open>s[i:j]\<close> for \<open>0 \<le> i\<close> and \<open>0 \<le> j\<close>.\<close>

definition slice :: "pystr \<Rightarrow> nat \<Rightarrow> nat \<Rightarrow> pystr" where
  "slice s i j = take (j - i) (drop i s)"

text \<open>Decimal digits of a number, as an f-string formats an \<^verbatim>\<open>int\<close>.\<close>

fun digits_of :: "nat \<Rightarrow> nat \<Rightarrow> pystr" where
  "digits_of 0 n = []"
| "digits_of (Suc fuel) n =
     (if n < 10 then [48 + n] else digits_of fuel (n div 10) @ [48 + n mod 10])"

definition dec :: "nat \<Rightarrow> pystr" where
  "dec n = digits_of (Suc n) n"

section \<open>The regular expressions of the program\<close>

text \<open>
  The fragment of \<^verbatim>\<open>re\<close> that the script uses: literals (case sensitive or not),
  one character of a class, a class under \<^verbatim>\<open>*\<close>, \<^verbatim>\<open>+\<close>, \<^verbatim>\<open>?\<close> and \<^verbatim>\<open>*?\<close>,
  look-ahead and look-behind on one class or one literal, \<^verbatim>\<open>\b\<close>, \<^verbatim>\<open>^\<close>, \<^verbatim>\<open>$\<close>,
  sequence, alternation and numbered groups.
\<close>

datatype re =
    Eps
  | Lit pystr
  | LitI pystr
  | One "cp \<Rightarrow> bool"
  | Star "cp \<Rightarrow> bool"
  | Plus "cp \<Rightarrow> bool"
  | LazyStar "cp \<Rightarrow> bool"
  | Opt "cp \<Rightarrow> bool"
  | Ahead "cp \<Rightarrow> bool"
  | NotAhead "cp \<Rightarrow> bool"
  | NotBehind pystr
  | NotBehindC "cp \<Rightarrow> bool"
  | WordB "cp \<Rightarrow> bool"
  | Bol
  | Eol
  | Cat re re
  | Alt re re
  | Grp nat re

definition seq :: "re list \<Rightarrow> re" where
  "seq rs = foldr Cat rs Eps"

text \<open>
  The state of a match attempt: the text before the current position (nearest
  character first), the text from it on, and the groups closed so far.
\<close>

record mstate =
  consumed :: pystr
  remaining :: pystr
  captures :: "(nat \<times> pystr) list"

definition advance :: "nat \<Rightarrow> mstate \<Rightarrow> mstate" where
  "advance k m =
     m\<lparr>consumed := rev (take k (remaining m)) @ consumed m, remaining := drop k (remaining m)\<rparr>"

definition next_is :: "(cp \<Rightarrow> bool) \<Rightarrow> pystr \<Rightarrow> bool" where
  "next_is p s = (case s of [] \<Rightarrow> False | c # _ \<Rightarrow> p c)"

text \<open>
  \<open>rx r m\<close> lists the states in which \<open>r\<close> can end when started in \<open>m\<close>, in the order
  in which the backtracking matcher of \<^verbatim>\<open>re\<close> tries them: the head is the match it
  returns.
\<close>

primrec rx :: "re \<Rightarrow> mstate \<Rightarrow> mstate list" where
  "rx Eps m = [m]"
| "rx (Lit s) m =
     (if take (length s) (remaining m) = s then [advance (length s) m] else [])"
| "rx (LitI s) m =
     (if length s \<le> length (remaining m) \<and> list_all2 ci_eq s (take (length s) (remaining m))
      then [advance (length s) m] else [])"
| "rx (One p) m = (if next_is p (remaining m) then [advance 1 m] else [])"
| "rx (Star p) m =
     map (\<lambda>k. advance k m) (rev [0..<Suc (length (takeWhile p (remaining m)))])"
| "rx (Plus p) m =
     map (\<lambda>k. advance k m) (rev [1..<Suc (length (takeWhile p (remaining m)))])"
| "rx (LazyStar p) m =
     map (\<lambda>k. advance k m) [0..<Suc (length (takeWhile p (remaining m)))]"
| "rx (Opt p) m = (if next_is p (remaining m) then [advance 1 m, m] else [m])"
| "rx (Ahead p) m = (if next_is p (remaining m) then [m] else [])"
| "rx (NotAhead p) m = (if next_is p (remaining m) then [] else [m])"
| "rx (NotBehind s) m = (if take (length s) (consumed m) = rev s then [] else [m])"
| "rx (NotBehindC p) m = (if next_is p (consumed m) then [] else [m])"
| "rx (WordB w) m = (if next_is w (consumed m) \<noteq> next_is w (remaining m) then [m] else [])"
| "rx Bol m = (if consumed m = [] then [m] else [])"
| "rx Eol m = (if remaining m = [] \<or> remaining m = [NL] then [m] else [])"
| "rx (Cat a b) m = concat (map (rx b) (rx a m))"
| "rx (Alt a b) m = rx a m @ rx b m"
| "rx (Grp n r) m =
     map (\<lambda>m'. m'\<lparr>captures :=
            (n, take (length (remaining m) - length (remaining m')) (remaining m)) # captures m'\<rparr>)
       (rx r m)"

primrec ngroups :: "re \<Rightarrow> nat" where
  "ngroups Eps = 0"
| "ngroups (Lit s) = 0"
| "ngroups (LitI s) = 0"
| "ngroups (One p) = 0"
| "ngroups (Star p) = 0"
| "ngroups (Plus p) = 0"
| "ngroups (LazyStar p) = 0"
| "ngroups (Opt p) = 0"
| "ngroups (Ahead p) = 0"
| "ngroups (NotAhead p) = 0"
| "ngroups (NotBehind s) = 0"
| "ngroups (NotBehindC p) = 0"
| "ngroups (WordB w) = 0"
| "ngroups Bol = 0"
| "ngroups Eol = 0"
| "ngroups (Cat a b) = max (ngroups a) (ngroups b)"
| "ngroups (Alt a b) = max (ngroups a) (ngroups b)"
| "ngroups (Grp n r) = max n (ngroups r)"

definition first_match :: "re \<Rightarrow> pystr \<Rightarrow> pystr \<Rightarrow> mstate option" where
  "first_match r pre suf =
     (case rx r \<lparr>consumed = pre, remaining = suf, captures = []\<rparr> of
        [] \<Rightarrow> None
      | m # _ \<Rightarrow> Some m)"

text \<open>
  One left-to-right scan, as \<^verbatim>\<open>finditer\<close>, \<^verbatim>\<open>search\<close> and \<^verbatim>\<open>sub\<close> make it: at each
  position the pattern is tried; a match is a \<open>Hit\<close> (its text and its groups) and the
  scan goes on behind it, a character at which nothing matches is a \<open>Gap\<close>. Every
  pattern of the program consumes a character, so the branch of the empty match (a hit,
  then one character on) is never taken by them.
\<close>

datatype chunk = Gap cp | Hit pystr "(nat \<times> pystr) list"

function scan :: "re \<Rightarrow> pystr \<Rightarrow> pystr \<Rightarrow> chunk list" where
  "scan r pre suf =
     (case first_match r pre suf of
        None \<Rightarrow> (case suf of [] \<Rightarrow> [] | c # cs \<Rightarrow> Gap c # scan r (c # pre) cs)
      | Some m \<Rightarrow>
          if length (remaining m) < length suf
          then Hit (take (length suf - length (remaining m)) suf) (captures m)
                 # scan r (consumed m) (remaining m)
          else Hit [] (captures m)
                 # (case suf of [] \<Rightarrow> [] | c # cs \<Rightarrow> Gap c # scan r (c # pre) cs))"
  by pat_completeness auto
termination
  by (relation "measure (\<lambda>(r, pre, suf). length suf)") auto

fun is_hit :: "chunk \<Rightarrow> bool" where
  "is_hit (Hit t g) = True"
| "is_hit (Gap c) = False"

text \<open>\<^verbatim>\<open>re.search(r, s)\<close> as a truth value.\<close>

definition re_search :: "re \<Rightarrow> pystr \<Rightarrow> bool" where
  "re_search r s = list_ex is_hit (scan r [] s)"

text \<open>The start offsets of the matches of \<^verbatim>\<open>re.finditer(r, s)\<close>.\<close>

fun hit_starts :: "nat \<Rightarrow> chunk list \<Rightarrow> nat list" where
  "hit_starts i [] = []"
| "hit_starts i (Gap c # cs) = hit_starts (Suc i) cs"
| "hit_starts i (Hit t g # cs) = i # hit_starts (i + length t) cs"

definition finditer_starts :: "re \<Rightarrow> pystr \<Rightarrow> nat list" where
  "finditer_starts r s = hit_starts 0 (scan r [] s)"

subsection \<open>Replacement templates\<close>

text \<open>
  The replacement string of \<^verbatim>\<open>re.sub\<close> is a template: a backslash starts an escape.
  \<open>parse_template\<close> follows \<^verbatim>\<open>re\<close>'s template parser for patterns without named
  groups (this program has none); \<open>None\<close> is \<^verbatim>\<open>re.error\<close>.
\<close>

datatype piece = PLit cp | PGroup nat

definition octal_digit :: "cp \<Rightarrow> bool" where
  "octal_digit c \<longleftrightarrow> 48 \<le> c \<and> c \<le> 55"

definition group_ref :: "nat \<Rightarrow> nat \<Rightarrow> piece list option \<Rightarrow> piece list option" where
  "group_ref ng n rest = (if n > ng then None else map_option (Cons (PGroup n)) rest)"

fun number_of :: "pystr \<Rightarrow> nat" where
  "number_of ds = foldl (\<lambda>n d. 10 * n + (d - 48)) 0 ds"

function parse_template :: "nat \<Rightarrow> pystr \<Rightarrow> piece list option" where
  "parse_template ng [] = Some []"
| "parse_template ng (c # cs) =
     (if c \<noteq> BS then map_option (Cons (PLit c)) (parse_template ng cs)
      else (case cs of
          [] \<Rightarrow> None
        | d # ds \<Rightarrow>
            if d = 103 then
              (case ds of
                 [] \<Rightarrow> None
               | l # ns \<Rightarrow>
                   let name = takeWhile (\<lambda>x. x \<noteq> 62) ns; after = dropWhile (\<lambda>x. x \<noteq> 62) ns
                   in if l \<noteq> 60 \<or> after = [] \<or> name = [] \<or> \<not> list_all ascii_digit name then None
                      else group_ref ng (number_of name) (parse_template ng (tl after)))
            else if d = 48 then
              (let os = takeWhile octal_digit (take 2 ds)
               in map_option (Cons (PLit (foldl (\<lambda>n x. 8 * n + (x - 48)) 0 os)))
                    (parse_template ng (drop (length os) ds)))
            else if ascii_digit d then
              (case ds of
                 e # es \<Rightarrow>
                   if ascii_digit e then
                     (if octal_digit d \<and> octal_digit e \<and> next_is octal_digit es
                      then (let v = 64 * (d - 48) + 8 * (e - 48) + (hd es - 48)
                            in if v > 255 then None
                               else map_option (Cons (PLit v)) (parse_template ng (tl es)))
                      else group_ref ng (10 * (d - 48) + (e - 48)) (parse_template ng es))
                   else group_ref ng (d - 48) (parse_template ng ds)
               | [] \<Rightarrow> group_ref ng (d - 48) (parse_template ng ds))
            else if d = BS then map_option (Cons (PLit BS)) (parse_template ng ds)
            else if d = 97 then map_option (Cons (PLit 7)) (parse_template ng ds)
            else if d = 98 then map_option (Cons (PLit 8)) (parse_template ng ds)
            else if d = 102 then map_option (Cons (PLit 12)) (parse_template ng ds)
            else if d = 110 then map_option (Cons (PLit NL)) (parse_template ng ds)
            else if d = 114 then map_option (Cons (PLit 13)) (parse_template ng ds)
            else if d = 116 then map_option (Cons (PLit 9)) (parse_template ng ds)
            else if d = 118 then map_option (Cons (PLit 11)) (parse_template ng ds)
            else if ascii_letter d then None
            else map_option (\<lambda>ps. PLit BS # PLit d # ps) (parse_template ng ds)))"
  by pat_completeness auto
termination
  by (relation "measure (\<lambda>(ng, s). length s)")
    (auto simp: less_Suc_eq_le intro: le_SucI order_trans [OF diff_le_self length_dropWhile_le])

text \<open>A template filled in for one match: group 0 is the whole match, a group that did
  not take part is empty.\<close>

fun fill :: "piece list \<Rightarrow> pystr \<Rightarrow> (nat \<times> pystr) list \<Rightarrow> pystr" where
  "fill [] t g = []"
| "fill (PLit c # ps) t g = c # fill ps t g"
| "fill (PGroup n # ps) t g =
     (if n = 0 then t else (case map_of g n of None \<Rightarrow> [] | Some s \<Rightarrow> s)) @ fill ps t g"

text \<open>The text rebuilt from a scan; \<open>lim\<close> is how many matches may still be replaced
  (\<open>None\<close>: all of them), the others keep their text.\<close>

fun rebuild :: "piece list \<Rightarrow> nat option \<Rightarrow> chunk list \<Rightarrow> pystr" where
  "rebuild ps lim [] = []"
| "rebuild ps lim (Gap c # cs) = c # rebuild ps lim cs"
| "rebuild ps lim (Hit t g # cs) =
     (case lim of
        None \<Rightarrow> fill ps t g @ rebuild ps None cs
      | Some 0 \<Rightarrow> t @ rebuild ps lim cs
      | Some (Suc k) \<Rightarrow> fill ps t g @ rebuild ps (Some k) cs)"

text \<open>\<^verbatim>\<open>re.sub(r, repl, s, count)\<close>; \<open>count = 0\<close> replaces every match.\<close>

definition re_sub :: "re \<Rightarrow> pystr \<Rightarrow> nat \<Rightarrow> pystr \<Rightarrow> pystr option" where
  "re_sub r repl count s =
     map_option (\<lambda>ps. rebuild ps (if count = 0 then None else Some count) (scan r [] s))
       (parse_template (ngroups r) repl)"

section \<open>The tables of the script\<close>

text \<open>\<^verbatim>\<open>ACRONYMS\<close>, a dictionary: its items in insertion order.\<close>

definition ACRONYMS :: "(pystr \<times> pystr) list" where
  "ACRONYMS =
    [(str ''NRL'', str ''Natural Rubber Latex''),
     (str ''NR'', str ''Natural Rubber''),
     (str ''PLA'', str ''Polylactic Acid''),
     (str ''PHA'', str ''Polyhydroxyalkanoates''),
     (str ''SBR'', str ''Styrene-Butadiene Rubber''),
     (str ''TPE'', str ''Thermoplastic Elastomer''),
     (str ''TPU'', str ''Thermoplastic Polyurethane''),
     (str ''PU'', str ''Polyurethane''),
     (str ''EPDM'', str ''Ethylene Propylene Diene Monomer''),
     (str ''SIC'', str ''Strain-Induced Crystallization''),
     (str ''DLVO'', str ''Derjaguin-Landau-Verwey-Overbeek''),
     (str ''SDS'', str ''Sodium Dodecyl Sulfate''),
     (str ''DLS'', str ''Dynamic Light Scattering''),
     (str ''PDI'', str ''Polydispersity Index''),
     (str ''DRC'', str ''Dry Rubber Content''),
     (str ''TSC'', str ''Total Solids Content''),
     (str ''AM'', str ''Additive Manufacturing''),
     (str ''VPP'', str ''Vat Photopolymerization''),
     (str ''SLA'', str ''Stereolithography''),
     (str ''DLP'', str ''Digital Light Processing''),
     (str ''FDM'', str ''Fused Deposition Modeling''),
     (str ''FFF'', str ''Fused Filament Fabrication''),
     (str ''DIW'', str ''Direct Ink Writing''),
     (str ''SLS'', str ''Selective Laser Sintering''),
     (str ''LOM'', str ''Laminated Object Manufacturing''),
     (str ''HDDA'', str ''1,6-Hexanediol Diacrylate''),
     (str ''TMPTA'', str ''Trimethylolpropane Triacrylate''),
     (str ''TPO'', str ''Phenylbis(2,4,6-trimethylbenzoyl)-phosphine Oxide''),
     (str ''PRE'', str ''Photoresin Emulsion''),
     (str ''DEPR'', str ''Dual Emulsion Photoresin''),
     (str ''JMRE'', str ''Jammed Micro-Reinforced Elastomer''),
     (str ''HLB'', str ''Hydrophilic-Lipophilic Balance''),
     (str ''HIPE'', str ''High Internal Phase Emulsion''),
     (str ''NMR'', str ''Nuclear Magnetic Resonance''),
     (str ''DOSY'', str ''Diffusion-Ordered Spectroscopy''),
     (str ''HSQC'', str ''Heteronuclear Single Quantum Coherence''),
     (str ''HMBC'', str ''Heteronuclear Multiple Bond Correlation''),
     (str ''COSY'', str ''Correlation Spectroscopy''),
     (str ''CPMG'', str ''Carr-Purcell-Meiboom-Gill''),
     (str ''FTIR'', str ''Fourier Transform Infrared Spectroscopy''),
     (str ''GPC'', str ''Gel Permeation Chromatography''),
     (str ''SEM'', str ''Scanning Electron Microscopy''),
     (str ''TEM'', str ''Transmission Electron Microscopy''),
     (str ''ASTM'', str ''American Society for Testing and Materials''),
     (str ''ISO'', str ''International Organization for Standardization''),
     (str ''OSHA'', str ''Occupational Safety and Health Administration''),
     (str ''DOE'', str ''Design of Experiments''),
     (str ''CFD'', str ''Computational Fluid Dynamics''),
     (str ''LVR'', str ''Linear Viscoelastic Region''),
     (str ''UV'', str ''Ultraviolet''),
     (str ''O/W'', str ''Oil-in-Water''),
     (str ''W/O'', str ''Water-in-Oil''),
     (str ''THF'', str ''Tetrahydrofuran''),
     (str ''TMS'', str ''Tetramethylsilane''),
     (str ''CoA'', str ''Certificate of Analysis'')]"

record chapter_config =
  title :: pystr
  label :: pystr
  filename :: pystr

definition CHAPTERS :: "nat \<Rightarrow> chapter_config option" where
  "CHAPTERS n =
     (if n = 1 then Some \<lparr>title = str ''Introduction'', label = str ''ch:introduction'',
                          filename = str ''chapter1.tex''\<rparr>
      else if n = 2 then Some \<lparr>title = str ''Literature Review'', label = str ''ch:literature-review'',
                          filename = str ''chapter2.tex''\<rparr>
      else if n = 3 then Some \<lparr>title = str ''Research Methodology'', label = str ''ch:methodology'',
                          filename = str ''chapter3.tex''\<rparr>
      else None)"

definition SECTION_PATTERNS :: "pystr list" where
  "SECTION_PATTERNS =
    [str ''Developing Circular Economies'',
     str ''Meeting Global Demand and Feedstock Diversification'',
     str ''Emerging Technological Interest'',
     str ''Problem Statement and Research Motivation'',
     str ''Research Objectives and Scope'',
     str ''Molecular Structure and Colloidal Stabilization'',
     str ''Colloids'',
     str ''The Theory of Natural Rubber Latex'',
     str ''Suspensions Rheology and Theoretical Models'',
     str ''Additive Manufacturing'',
     str ''Sourcing, Traceability, and Rationale'',
     str ''Spectroscopic and Analytical Reagents'',
     str ''Rheological Characterization'',
     str ''Nuclear Magnetic Resonance'',
     str ''Components and Protocols'',
     str ''Material Characterizations'',
     str ''Mechanical Characterizations'',
     str ''DLP 3D Printing'']"

definition SUBSECTION_PATTERNS :: "pystr list" where
  "SUBSECTION_PATTERNS =
    [str ''Preservation Chemistry'',
     str ''Preservation-aware framework'',
     str ''Primary Objectives'',
     str ''Research scope'',
     str ''Natural Rubber Latex'',
     str ''Alternative Preservation Systems'',
     str ''Surfactant Stabilization Mechanisms'',
     str ''Structure-Process-Property'',
     str ''Predictive Viscosity Models'',
     str ''Yield Stress and Shear-Thinning'',
     str ''Photoresins for Vat Photopolymerization'',
     str ''Challenges of Elastomers'',
     str ''Polyurethane and Silicone Elastomers'',
     str ''Emulsion-Based 3D Printing'',
     str ''Overview of Preservation Methods'',
     str ''Ammoniated Latex System'',
     str ''Eco-preserved Latex'',
     str ''Reference and Synthetic Polymer'',
     str ''Pre-receipt Specifications'',
     str ''Incoming Verification'',
     str ''Deuterated Solvents'',
     str ''Photopolymerization and Surfactant'',
     str ''Sample Preparation'',
     str ''Rotational Rheometry'',
     str ''Rheology Interpretation'',
     str ''Viscosity and Volume Fraction'',
     str ''Overview and General Conditions'',
     str ''High-Resolution Solution-State'',
     str ''Diffusion-Ordered Spectroscopy'',
     str ''Time-Domain NMR'',
     str ''Preparation of the UV-Curable'',
     str ''Preparation of Photoresin Emulsion'',
     str ''Preparation of Dual Emulsion'',
     str ''Particle Size and Zeta Potential'',
     str ''Photorheology Characterizations'',
     str ''Uniaxial Tension Test'',
     str ''Cyclic and Hysteresis'',
     str ''Fracture Energy'',
     str ''Puncture Tests'',
     str ''Measurement of Curing Depth'',
     str ''Gel Permeation Chromatography'']"

section \<open>\<^verbatim>\<open>fix_special_characters\<close>\<close>

definition fix_special_characters :: "unicode \<Rightarrow> pystr \<Rightarrow> pystr option" where
  "fix_special_characters U content = do {
     content \<leftarrow> re_sub (seq [Lit (BS # str ''textasciitilde''), Star isspace])
                  (str ''$'' @ [BS, BS] @ str ''sim$'') 0 content;
     content \<leftarrow> re_sub (seq [Lit (str ''~''), Ahead (u_digit U)])
                  (str ''$'' @ [BS, BS] @ str ''sim$'') 0 content;
     content \<leftarrow> re_sub (Lit [176]) ([BS, BS] @ str ''textdegree{}'') 0 content;
     content \<leftarrow> re_sub (seq [WordB (u_word U), Lit (str ''CO2''), WordB (u_word U)])
                  (str ''CO$_2$'') 0 content;
     content \<leftarrow> re_sub (seq [WordB (u_word U), Lit (str ''CH4''), WordB (u_word U)])
                  (str ''CH$_4$'') 0 content;
     content \<leftarrow> re_sub (seq [WordB (u_word U), Lit (str ''H2O''), WordB (u_word U)])
                  (str ''H$_2$O'') 0 content;
     content \<leftarrow> re_sub (seq [WordB (u_word U), Lit (str ''O2''), WordB (u_word U)])
                  (str ''O$_2$'') 0 content;
     content \<leftarrow> re_sub (Lit [215]) (str ''$'' @ [BS, BS] @ str ''times$'') 0 content;
     content \<leftarrow> re_sub (seq [Lit [DQ], Grp 1 (Star (\<lambda>c. c \<noteq> DQ)), Lit [DQ]])
                  (str ''``'' @ [BS, BS] @ str ''1'' @ [SQ, SQ]) 0 content;
     content \<leftarrow> re_sub (Lit [8212]) (str ''---'') 0 content;
     content \<leftarrow> re_sub (Lit [8211]) (str ''--'') 0 content;
     content \<leftarrow> re_sub (seq [NotBehind [BS], Lit (str ''%'')]) ([BS, BS] @ str ''%'') 0 content;
     content \<leftarrow> re_sub (seq [NotBehind [BS], Lit (str ''&''), NotAhead (\<lambda>c. c = BS)])
                  ([BS, BS] @ str ''&'') 0 content;
     Some content
   }"

section \<open>\<^verbatim>\<open>replace_acronyms\<close>\<close>

text \<open>One turn of the loop over \<^verbatim>\<open>ACRONYMS.items()\<close>; the state is the text and the
  set \<^verbatim>\<open>used_acronyms\<close>. \<^verbatim>\<open>re.escape\<close> makes every character of its argument a literal.\<close>

definition acronym_step :: "pystr \<times> pystr \<Rightarrow> pystr \<times> pystr set \<Rightarrow> (pystr \<times> pystr set) option" where
  "acronym_step item st =
     (case item of (short, full) \<Rightarrow> (case st of (content, used) \<Rightarrow> do {
        let pattern = seq [LitI full, Star isspace, LitI (str ''('' @ short @ str '')'')];
        (content, used) \<leftarrow>
          (if re_search pattern content
           then map_option (\<lambda>c. (c, insert short used))
                  (re_sub pattern ([BS, BS] @ str ''ac{'' @ short @ str ''}'') 0 content)
           else Some (content, used));
        (if short \<in> used
         then map_option (\<lambda>c. (c, used))
                (re_sub (seq [NotBehind (BS # str ''ac{''), NotBehindC ascii_letter, Lit short,
                              NotAhead (\<lambda>c. ascii_letter c \<or> c = 125)])
                   ([BS, BS] @ str ''ac{'' @ short @ str ''}'') 0 content)
         else Some (content, used))
      }))"

fun fold_option :: "('a \<Rightarrow> 's \<Rightarrow> 's option) \<Rightarrow> 'a list \<Rightarrow> 's \<Rightarrow> 's option" where
  "fold_option f [] s = Some s"
| "fold_option f (x # xs) s = (case f x s of None \<Rightarrow> None | Some s' \<Rightarrow> fold_option f xs s')"

definition replace_acronyms :: "pystr \<Rightarrow> pystr option" where
  "replace_acronyms content = map_option fst (fold_option acronym_step ACRONYMS (content, {}))"

section \<open>\<^verbatim>\<open>fix_headings\<close>\<close>

text \<open>The anchor of a title: lower case, blanks to hyphens, the characters in \<open>removed\<close>
  removed, then everything outside \<^verbatim>\<open>[a-z0-9-]\<close> removed by \<^verbatim>\<open>re.sub\<close>.\<close>

definition slug_char :: "cp \<Rightarrow> bool" where
  "slug_char c \<longleftrightarrow> ascii_lower_letter c \<or> ascii_digit c \<or> c = 45"

definition slugify :: "unicode \<Rightarrow> pystr \<Rightarrow> pystr \<Rightarrow> pystr option" where
  "slugify U removed t =
     re_sub (One (\<lambda>c. \<not> slug_char c)) [] 0
       (filter (\<lambda>c. c \<notin> set removed) (map (\<lambda>c. if c = 32 then 45 else c) (u_lower U t)))"

text \<open>One turn of the loops over \<^verbatim>\<open>SECTION_PATTERNS\<close> and \<^verbatim>\<open>SUBSECTION_PATTERNS\<close>:
  \<open>cmd\<close> is \<^verbatim>\<open>section\<close> or \<^verbatim>\<open>subsection\<close>, \<open>pre\<close> is \<^verbatim>\<open>sec\<close> or \<^verbatim>\<open>subsec\<close>.\<close>

definition promote :: "unicode \<Rightarrow> pystr \<Rightarrow> pystr \<Rightarrow> pystr \<Rightarrow> pystr \<Rightarrow> pystr option" where
  "promote U cmd pre t content = do {
     lab \<leftarrow> slugify U (str '':,'') t;
     re_sub (seq [LitI (BS # str ''textbf{'' @ t), Star (\<lambda>c. c \<noteq> 125), LitI (str ''}'')])
       ([BS, BS] @ cmd @ str ''{'' @ t @ str ''}'' @ [NL] @ [BS, BS] @ str ''label{'' @ pre @ str '':'' @ lab @ str ''}'')
       0 content
   }"

definition hyper_pattern :: re where
  "hyper_pattern =
     seq [Lit (BS # str ''hypertarget{''), Star (\<lambda>c. c \<noteq> 125), Lit (str ''}{''),
          Opt (\<lambda>c. c = 37), Star isspace, Lit [BS],
          Grp 1 (Alt (Lit (str ''chapter'')) (Alt (Lit (str ''section''))
                  (Alt (Lit (str ''subsection'')) (Lit (str ''subsubsection''))))),
          Lit (str ''{''), Grp 2 (Star (\<lambda>c. c \<noteq> 125)), Lit (str ''}''),
          Star (\<lambda>c. c \<noteq> 125), Lit (str ''}'')]"

definition bold_only_pattern :: re where
  "bold_only_pattern =
     seq [Bol, Lit (BS # str ''textbf{''), Grp 1 (Plus (\<lambda>c. c \<noteq> 125)), Lit (str ''}''), Eol]"

text \<open>\<^verbatim>\<open>m.group(n)\<close> of a group that took part in the match.\<close>

definition group :: "mstate \<Rightarrow> nat \<Rightarrow> pystr" where
  "group m n = (case map_of (captures m) n of None \<Rightarrow> [] | Some s \<Rightarrow> s)"

definition endswith :: "pystr \<Rightarrow> pystr \<Rightarrow> bool" where
  "endswith s suffix \<longleftrightarrow> take (length suffix) (rev s) = rev suffix"

text \<open>The body of the loop over the lines: the lines it appends to \<^verbatim>\<open>result\<close>.\<close>

definition heading_line :: "unicode \<Rightarrow> pystr \<Rightarrow> pystr list option" where
  "heading_line U line =
     (let stripped = strip line in
      case first_match hyper_pattern [] stripped of
        Some m \<Rightarrow> do {
          let cmd = group m 1;
          let t = group m 2;
          lab \<leftarrow> slugify U (str '':'') t;
          Some [BS # cmd @ str ''{'' @ t @ str ''}'',
                if cmd = str ''chapter'' then BS # str ''label{ch:'' @ lab @ str ''}''
                else BS # str ''label{sec:'' @ lab @ str ''}'']
        }
      | None \<Rightarrow>
          (case first_match bold_only_pattern [] stripped of
             Some m \<Rightarrow>
               (let t = group m 1 in
                if length t < 100 \<and> \<not> endswith t (str ''.'')
                then do {
                  lab \<leftarrow> slugify U (str '':'') t;
                  Some [BS # str ''subsection*{'' @ t @ str ''}'',
                        BS # str ''label{subsec:'' @ lab @ str ''}'']
                }
                else Some [line])
           | None \<Rightarrow> Some [line]))"

fun map_option_list :: "('a \<Rightarrow> 'b option) \<Rightarrow> 'a list \<Rightarrow> 'b list option" where
  "map_option_list f [] = Some []"
| "map_option_list f (x # xs) =
     (case f x of None \<Rightarrow> None
      | Some y \<Rightarrow> (case map_option_list f xs of None \<Rightarrow> None | Some ys \<Rightarrow> Some (y # ys)))"

definition insert_chapter1 :: "pystr \<Rightarrow> pystr option" where
  "insert_chapter1 content =
     (if contains content (str ''Background and Significance'')
         \<and> \<not> contains content (BS # str ''chapter{Introduction}'')
      then re_sub (Lit (str ''Background and Significance''))
             ([BS, BS] @ str ''chapter{Introduction}'' @ [BS, 110] @
              [BS, BS] @ str ''label{ch:introduction}'' @ [BS, 110, BS, 110] @
              [BS, BS] @ str ''section{Background and Significance}'' @ [BS, 110] @
              [BS, BS] @ str ''label{sec:background-and-significance}'')
             1 content
      else Some content)"

definition fix_headings :: "unicode \<Rightarrow> pystr \<Rightarrow> pystr option" where
  "fix_headings U content = do {
     content \<leftarrow> insert_chapter1 content;
     content \<leftarrow> re_sub (seq [LitI (str ''Chapter''), Plus isspace, Lit (str ''2''), Star isspace,
                              Plus (\<lambda>c. c = NL), Star isspace, LitI (str ''Literature''),
                              Plus isspace, LitI (str ''review'')])
                  ([BS, BS] @ str ''chapter{Literature Review}'' @ [BS, 110] @
                   [BS, BS] @ str ''label{ch:literature-review}'') 0 content;
     content \<leftarrow> re_sub (seq [LitI (BS # str ''textbf{Chapter''), Plus isspace, Lit (str ''3}''),
                              Star isspace, Plus (\<lambda>c. c = NL), Star isspace,
                              LitI (BS # str ''textbf{3.''), Star isspace, LitI (str ''Research''),
                              Plus isspace, LitI (str ''Methodology}'')])
                  ([BS, BS] @ str ''chapter{Research Methodology}'' @ [BS, 110] @
                   [BS, BS] @ str ''label{ch:methodology}'') 0 content;
     content \<leftarrow> re_sub (seq [LitI (str ''Chapter''), Plus isspace, Lit (str ''3''), Star isspace,
                              Plus (\<lambda>c. c = NL), LazyStar (\<lambda>c. c \<noteq> NL), LitI (str ''Research''),
                              Plus isspace, LitI (str ''Methodology'')])
                  ([BS, BS] @ str ''chapter{Research Methodology}'' @ [BS, 110] @
                   [BS, BS] @ str ''label{ch:methodology}'') 0 content;
     content \<leftarrow> fold_option (promote U (str ''section'') (str ''sec'')) SECTION_PATTERNS content;
     content \<leftarrow> fold_option (promote U (str ''subsection'') (str ''subsec'')) SUBSECTION_PATTERNS content;
     result \<leftarrow> map_option_list (heading_line U) (split_nl content);
     Some (join_nl (concat result))
   }"

section \<open>\<^verbatim>\<open>split_into_chapters\<close>\<close>

definition chapter_pattern :: re where
  "chapter_pattern = seq [Lit (BS # str ''chapter{''), Grp 1 (Star (\<lambda>c. c \<noteq> 125)), Lit (str ''}'')]"

text \<open>The function prints and returns a dictionary: the lines printed, and the items
  of the dictionary in insertion order.\<close>

definition split_into_chapters :: "pystr \<Rightarrow> pystr list \<times> (nat \<times> pystr) list" where
  "split_into_chapters content =
     (let starts = finditer_starts chapter_pattern content in
      if starts = []
      then ([str ''[WARNING] No '' @ BS # str ''chapter{} commands found. Content may need manual review.''],
            [(1, content)])
      else
        (let frontmatter = strip (take (hd starts) content)
         in (if frontmatter \<noteq> []
             then [str ''[INFO] Removed '' @ dec (length frontmatter)
                     @ str '' characters of frontmatter before Chapter 1'']
             else [],
             map (\<lambda>i. (i + 1,
                    strip (slice content (starts ! i)
                      (if i + 1 < length starts then starts ! (i + 1) else length content))))
               [0..<length starts])))"

section \<open>\<^verbatim>\<open>create_chapter_file\<close> and \<^verbatim>\<open>process_and_save\<close>\<close>

text \<open>\<open>now\<close> is what \<^verbatim>\<open>time.strftime('%Y-%m-%d %H:%M:%S')\<close> returns at the call.\<close>

definition create_chapter_file :: "pystr \<Rightarrow> nat \<Rightarrow> pystr \<Rightarrow> pystr" where
  "create_chapter_file now chapter_num content =
     (let config = (case CHAPTERS chapter_num of
                      Some c \<Rightarrow> c
                    | None \<Rightarrow> \<lparr>title = str ''Chapter '' @ dec chapter_num,
                               label = str ''ch:chapter'' @ dec chapter_num,
                               filename = str ''chapter'' @ dec chapter_num @ str ''.tex''\<rparr>);
          header = str ''% '' @ filename config @ str '' -- Chapter '' @ dec chapter_num @ str '': ''
                   @ title config @ [NL] @ str ''%'' @ [NL]
                   @ str ''% Natural Rubber Latex Thesis'' @ [NL]
                   @ str ''% Auto-generated from Word document - '' @ now @ [NL, NL]
      in header @ content)"

text \<open>
  What the script sees of the world: the text files of \<^verbatim>\<open>CHAPTERS_DIR\<close> by name, as
  \<^verbatim>\<open>read_text\<close> returns them, and the lines printed. \<open>clock n\<close> is the time stamp read
  while chapter \<open>n\<close> is written.
\<close>

text \<open>\<^verbatim>\<open>PurePath.suffix\<close> and \<^verbatim>\<open>PurePath.with_suffix\<close> on a file name.\<close>

definition suffix_of :: "pystr \<Rightarrow> pystr" where
  "suffix_of name =
     (let r = takeWhile (\<lambda>c. c \<noteq> 46) (rev name)
      in if 46 \<in> set name \<and> r \<noteq> [] \<and> length r + 1 < length name then 46 # rev r else [])"

definition with_suffix :: "pystr \<Rightarrow> pystr \<Rightarrow> pystr" where
  "with_suffix name suffix = take (length name - length (suffix_of name)) name @ suffix"

record world =
  files :: "pystr \<rightharpoonup> pystr"
  console :: "pystr list"

definition print :: "pystr \<Rightarrow> world \<Rightarrow> world" where
  "print line w = w\<lparr>console := console w @ [line]\<rparr>"

definition save_chapter :: "(nat \<Rightarrow> pystr) \<Rightarrow> nat \<times> pystr \<Rightarrow> world \<Rightarrow> world" where
  "save_chapter clock item w =
     (case item of (chapter_num, chapter_content) \<Rightarrow>
        (case CHAPTERS chapter_num of
           None \<Rightarrow> print (str ''[WARNING] Chapter '' @ dec chapter_num
                          @ str '' not in configuration, skipping.'') w
         | Some config \<Rightarrow>
             (let output_file = filename config;
                  full_content = create_chapter_file (clock chapter_num) chapter_num chapter_content;
                  w = (case files w output_file of
                         Some old \<Rightarrow> w\<lparr>files := (files w)(with_suffix output_file (str ''.tex.bak'') \<mapsto> old)\<rparr>
                       | None \<Rightarrow> w);
                  w = w\<lparr>files := (files w)(output_file \<mapsto> full_content)\<rparr>
              in print (str ''[OK] Saved '' @ output_file) w)))"

definition transform :: "unicode \<Rightarrow> pystr \<Rightarrow> pystr option" where
  "transform U content = do {
     content \<leftarrow> fix_special_characters U content;
     content \<leftarrow> replace_acronyms content;
     fix_headings U content
   }"

definition process_and_save :: "unicode \<Rightarrow> (nat \<Rightarrow> pystr) \<Rightarrow> pystr \<Rightarrow> world \<Rightarrow> world option" where
  "process_and_save U clock content w = do {
     content \<leftarrow> transform U content;
     let (printed, chapters) = split_into_chapters content;
     Some (fold (save_chapter clock) chapters (w\<lparr>console := console w @ printed\<rparr>))
   }"

section \<open>Notions used in the proofs\<close>

text \<open>\<^verbatim>\<open>re.sub\<close> with a replacement that is a constant text \<open>R\<close>, every match replaced.\<close>

definition subst :: "re \<Rightarrow> pystr \<Rightarrow> pystr \<Rightarrow> pystr" where
  "subst r R s = rebuild (map PLit R) None (scan r [] s)"

text \<open>\<open>needs D r\<close>: every match of \<open>r\<close> consumes a character of the class \<open>D\<close>.\<close>

primrec needs :: "(cp \<Rightarrow> bool) \<Rightarrow> re \<Rightarrow> bool" where
  "needs D Eps = False"
| "needs D (Lit s) = list_ex D s"
| "needs D (LitI s) =
     list_ex (\<lambda>p. D (ascii_lower p) \<and> D (ascii_upper p) \<and> D p \<and> (ascii_lower p = 107 \<longrightarrow> D 8490) \<and>
        (ascii_lower p = 115 \<longrightarrow> D 383) \<and> (ascii_lower p = 105 \<longrightarrow> D 304 \<and> D 305)) s"
| "needs D (One p) = False"
| "needs D (Star p) = False"
| "needs D (Plus p) = False"
| "needs D (LazyStar p) = False"
| "needs D (Opt p) = False"
| "needs D (Ahead p) = False"
| "needs D (NotAhead p) = False"
| "needs D (NotBehind s) = False"
| "needs D (NotBehindC p) = False"
| "needs D (WordB w) = False"
| "needs D Bol = False"
| "needs D Eol = False"
| "needs D (Cat a b) = (needs D a \<or> needs D b)"
| "needs D (Alt a b) = (needs D a \<and> needs D b)"
| "needs D (Grp n r) = needs D r"

text \<open>Characters on which some pattern of the pipeline depends: a text without them
  passes through the three transformations unchanged.\<close>

definition trigger :: "cp \<Rightarrow> bool" where
  "trigger c \<longleftrightarrow> c \<in> set (str ''x~24%&(3fFy'') \<or> c = DQ \<or> c = 176 \<or> c = 215 \<or> c = 8212 \<or> c = 8211"

text \<open>\<open>follows_bs D s\<close>: somewhere in \<open>s\<close> a backslash is followed by a character of the
  class \<open>D\<close>.\<close>

fun follows_bs :: "(cp \<Rightarrow> bool) \<Rightarrow> pystr \<Rightarrow> bool" where
  "follows_bs D (c # d # s) = (c = BS \<and> D d \<or> follows_bs D (d # s))"
| "follows_bs D [c] = False"
| "follows_bs D [] = False"

text \<open>A text in which none of the patterns that \<^verbatim>\<open>fix_headings\<close> tries after its first
  step can match: it has no digit 2 or 3 (the chapter patterns need one) and no
  backslash followed by t, T or h (the start of \<^verbatim>\<open>\textbf\<close> and of \<^verbatim>\<open>\hypertarget\<close>).\<close>

definition heading_free :: "pystr \<Rightarrow> bool" where
  "heading_free s \<longleftrightarrow>
     50 \<notin> set s \<and> 51 \<notin> set s \<and> \<not> follows_bs (\<lambda>d. d = 116 \<or> d = 84 \<or> d = 104) s"

text \<open>\<open>starts_ci w s\<close>: the text \<open>s\<close> begins with the characters of \<open>w\<close>, letters in either
  case, as a literal of a pattern compiled with \<^verbatim>\<open>re.IGNORECASE\<close> matches them.\<close>

definition starts_ci :: "pystr \<Rightarrow> pystr \<Rightarrow> bool" where
  "starts_ci w s \<longleftrightarrow> length w \<le> length s \<and> list_all2 ci_eq w (take (length w) s)"

text \<open>\<open>unclosed w s\<close>: somewhere in \<open>s\<close> begins \<open>w\<close> (letters in either case) and no closing
  brace follows it up to the end of \<open>s\<close>.\<close>

fun unclosed :: "pystr \<Rightarrow> pystr \<Rightarrow> bool" where
  "unclosed w [] = False"
| "unclosed w (c # s) = (starts_ci w (c # s) \<and> 125 \<notin> set (c # s) \<or> unclosed w s)"

text \<open>\<open>carried s s'\<close> relates a text to what a substitution made of it when every
  replacement ends with a closing brace: an end piece of \<open>s'\<close> without closing brace is
  found in \<open>s\<close>, followed there by text without closing brace.\<close>

definition carried :: "pystr \<Rightarrow> pystr \<Rightarrow> bool" where
  "carried s s' \<longleftrightarrow>
     (125 \<notin> set s' \<longrightarrow> (\<exists>v. s = s' @ v \<and> 125 \<notin> set v)) \<and>
     (\<forall>x u. s' = x @ u \<and> 125 \<notin> set u \<longrightarrow> (\<exists>y v. s = y @ u @ v \<and> 125 \<notin> set v))"

text \<open>The name of the output file of chapter \<open>n\<close> and of its backup.\<close>

definition tex_name :: "nat \<Rightarrow> pystr" where
  "tex_name n = str ''chapter'' @ dec n @ str ''.tex''"

definition bak_name :: "nat \<Rightarrow> pystr" where
  "bak_name n = str ''chapter'' @ dec n @ str ''.tex.bak''"

declare scan.simps [simp del]
declare parse_template.simps [simp del]

lemma bind_weak_cong: "x = y \<Longrightarrow> Option.bind x f = Option.bind y f" by simp

lemma parse_template_plain:
  "BS \<notin> set s \<Longrightarrow> parse_template ng s = Some (map PLit s)"
  by (induction s) (auto simp: parse_template.simps)

lemma parse_template_bs:
  "parse_template ng (BS # BS # s) = map_option (Cons (PLit BS)) (parse_template ng s)"
  by (simp add: parse_template.simps(2) [of ng BS] ascii_digit_def)

lemma parse_template_nl:
  "parse_template ng (BS # 110 # s) = map_option (Cons (PLit NL)) (parse_template ng s)"
  by (simp add: parse_template.simps(2) [of ng BS] ascii_digit_def)

lemma parse_template_char:
  "c \<noteq> BS \<Longrightarrow> parse_template ng (c # s) = map_option (Cons (PLit c)) (parse_template ng s)"
  by (simp add: parse_template.simps(2) [of ng c])

lemma parse_template_append_plain:
  "BS \<notin> set s \<Longrightarrow> parse_template ng (s @ t) = map_option ((@) (map PLit s)) (parse_template ng t)"
  by (induction s; cases "parse_template ng t") (auto simp: parse_template_char)

lemma fill_lits [simp]: "fill (map PLit s) t g = s"
  by (induction s) auto

lemma fill_append [simp]: "fill (ps @ qs) t g = fill ps t g @ fill qs t g"
  by (induction ps t g rule: fill.induct) auto

lemmas tmpl = parse_template_bs parse_template_nl parse_template_char parse_template.simps(1)

lemma re_sub_subst:
  "parse_template (ngroups r) t = Some (map PLit R) \<Longrightarrow> re_sub r t 0 s = Some (subst r R s)"
  by (simp add: re_sub_def subst_def)

lemma bind_total:
  "\<exists>y. x = Some y \<Longrightarrow> (\<And>y. \<exists>z. f y = Some z) \<Longrightarrow> \<exists>z. Option.bind x f = Some z"
  by auto

lemma re_sub_total:
  "parse_template (ngroups r) t = Some ps \<Longrightarrow> \<exists>c. re_sub r t n s = Some c"
  by (simp add: re_sub_def)

lemma fsc_eq:
  "fix_special_characters U s =
     Some (subst (seq [NotBehind [BS], Lit (str ''&''), NotAhead (\<lambda>c. c = BS)]) (BS # str ''&'')
          (subst (seq [NotBehind [BS], Lit (str ''%'')]) (BS # str ''%'')
          (subst (Lit [8211]) (str ''--'')
          (subst (Lit [8212]) (str ''---'')
          (subst (seq [Lit [DQ], Grp 1 (Star (\<lambda>c. c \<noteq> DQ)), Lit [DQ]]) (str ''``'' @ BS # str ''1'' @ [SQ, SQ])
          (subst (Lit [215]) (str ''$'' @ BS # str ''times$'')
          (subst (seq [WordB (u_word U), Lit (str ''O2''), WordB (u_word U)]) (str ''O$_2$'')
          (subst (seq [WordB (u_word U), Lit (str ''H2O''), WordB (u_word U)]) (str ''H$_2$O'')
          (subst (seq [WordB (u_word U), Lit (str ''CH4''), WordB (u_word U)]) (str ''CH$_4$'')
          (subst (seq [WordB (u_word U), Lit (str ''CO2''), WordB (u_word U)]) (str ''CO$_2$'')
          (subst (Lit [176]) (BS # str ''textdegree{}'')
          (subst (seq [Lit (str ''~''), Ahead (u_digit U)]) (str ''$'' @ BS # str ''sim$'')
          (subst (seq [Lit (BS # str ''textasciitilde''), Star isspace]) (str ''$'' @ BS # str ''sim$'') s)))))))))))))"
  unfolding fix_special_characters_def
  by (simp add: re_sub_def subst_def str_def tmpl seq_def)

lemma first_match_One:
  "first_match (One p) pre (c # cs) =
     (if p c then Some \<lparr>consumed = c # pre, remaining = cs, captures = []\<rparr> else None)"
  by (simp add: first_match_def next_is_def advance_def)

lemma scan_One:
  "scan (One p) pre s = map (\<lambda>c. if p c then Hit [c] [] else Gap c) s"
proof (induction s arbitrary: pre)
  case Nil
  show ?case by (simp add: scan.simps [of _ _ "[]"] first_match_def next_is_def)
next
  case (Cons c cs)
  show ?case by (simp add: scan.simps [of _ _ "c # cs"] first_match_One Cons)
qed

lemma rebuild_delete:
  "rebuild [] None (map (\<lambda>c. if p c then Hit [c] [] else Gap c) s) = filter (\<lambda>c. \<not> p c) s"
  by (induction s) auto

lemma slugify_eq:
  "slugify U removed t =
     Some (filter slug_char (filter (\<lambda>c. c \<notin> set removed)
             (map (\<lambda>c. if c = 32 then 45 else c) (u_lower U t))))"
  by (simp add: slugify_def re_sub_def parse_template.simps(1) scan_One rebuild_delete)

lemma slug_char_not_bs: "slug_char c \<Longrightarrow> c \<noteq> BS"
  by (auto simp: slug_char_def ascii_lower_letter_def ascii_digit_def)

lemma promote_total:
  assumes "BS \<notin> set cmd" "BS \<notin> set pre" "BS \<notin> set t"
  shows "\<exists>c. promote U cmd pre t content = Some c"
proof -
  obtain lab where lab: "slugify U (str '':,'') t = Some lab" "BS \<notin> set lab"
    using slug_char_not_bs by (auto simp: slugify_eq)
  have "BS \<notin> set (cmd @ str ''{'' @ t @ str ''}'' @ [NL])"
    using assms by (simp add: str_def)
  moreover have "BS \<notin> set (str ''label{'' @ pre @ str '':'' @ lab @ str ''}'')"
    using assms lab by (simp add: str_def)
  ultimately have "\<exists>ps. parse_template n ([BS, BS] @ cmd @ str ''{'' @ t @ str ''}'' @ [NL] @ [BS, BS]
      @ str ''label{'' @ pre @ str '':'' @ lab @ str ''}'') = Some ps" for n
    using parse_template_append_plain [of "cmd @ str ''{'' @ t @ str ''}'' @ [NL]" n]
      parse_template_plain [of "str ''label{'' @ pre @ str '':'' @ lab @ str ''}''" n]
    by (simp add: parse_template_bs)
  then show ?thesis
    by (auto simp: promote_def lab re_sub_def)
qed

lemma fold_option_total:
  "(\<And>x s. x \<in> set xs \<Longrightarrow> \<exists>s'. f x s = Some s') \<Longrightarrow> \<exists>s'. fold_option f xs s = Some s'"
proof (induction xs arbitrary: s)
  case Nil
  show ?case by simp
next
  case (Cons x xs)
  obtain s1 where "f x s = Some s1" using Cons.prems [of x s] by auto
  moreover have "\<exists>s'. fold_option f xs s1 = Some s'"
    by (rule Cons.IH) (simp add: Cons.prems)
  ultimately show ?case by simp
qed

lemma map_option_list_total:
  "(\<And>x. \<exists>y. f x = Some y) \<Longrightarrow> \<exists>ys. map_option_list f xs = Some ys"
proof (induction xs)
  case Nil
  show ?case by simp
next
  case (Cons x xs)
  obtain y where "f x = Some y" using Cons.prems [of x] by auto
  moreover obtain ys where "map_option_list f xs = Some ys" using Cons by blast
  ultimately show ?case by simp
qed

lemma heading_line_total: "\<exists>ls. heading_line U line = Some ls"
  by (simp add: heading_line_def slugify_eq Let_def split: option.splits)

lemma acronym_step_total:
  assumes "BS \<notin> set short"
  shows "\<exists>st'. acronym_step (short, full) st = Some st'"
proof -
  have "BS \<notin> set (str ''ac{'' @ short @ str ''}'')"
    using assms by (simp add: str_def)
  then have "\<exists>ps. parse_template n ([BS, BS] @ str ''ac{'' @ short @ str ''}'') = Some ps" for n
    by (simp add: parse_template_bs parse_template_plain)
  then have R: "\<exists>c'. re_sub r ([BS, BS] @ str ''ac{'' @ short @ str ''}'') 0 c = Some c'" for r c
    by (metis re_sub_total)
  obtain c used where st: "st = (c, used)" by (cases st)
  let ?P = "seq [LitI full, Star isspace, LitI (str ''('' @ short @ str '')'')]"
  let ?Q = "seq [NotBehind (BS # str ''ac{''), NotBehindC ascii_letter, Lit short,
                 NotAhead (\<lambda>c. ascii_letter c \<or> c = 125)]"
  obtain c1 where c1: "re_sub ?P ([BS, BS] @ str ''ac{'' @ short @ str ''}'') 0 c = Some c1"
    using R by blast
  obtain c2 where c2: "re_sub ?Q ([BS, BS] @ str ''ac{'' @ short @ str ''}'') 0 c1 = Some c2"
    using R by blast
  obtain c3 where c3: "re_sub ?Q ([BS, BS] @ str ''ac{'' @ short @ str ''}'') 0 c = Some c3"
    using R by blast
  show ?thesis
    using c1 c2 c3 by (auto simp: acronym_step_def st Let_def)
qed

lemma ACRONYMS_no_bs: "(short, full) \<in> set ACRONYMS \<Longrightarrow> BS \<notin> set short"
  by (auto simp: ACRONYMS_def str_def)

lemma SECTION_PATTERNS_no_bs: "t \<in> set SECTION_PATTERNS \<Longrightarrow> BS \<notin> set t"
  by (auto simp: SECTION_PATTERNS_def str_def)

lemma SUBSECTION_PATTERNS_no_bs: "t \<in> set SUBSECTION_PATTERNS \<Longrightarrow> BS \<notin> set t"
  by (auto simp: SUBSECTION_PATTERNS_def str_def)

lemma replace_acronyms_total: "\<exists>c. replace_acronyms content = Some c"
proof -
  have "\<exists>s'. acronym_step x s = Some s'" if "x \<in> set ACRONYMS" for x s
    using that acronym_step_total [of "fst x" "snd x" s] ACRONYMS_no_bs [of "fst x" "snd x"] by simp
  then have "\<exists>s'. fold_option acronym_step ACRONYMS (content, {}) = Some s'"
    by (rule fold_option_total)
  then show ?thesis by (auto simp: replace_acronyms_def)
qed

lemma insert_chapter1_total: "\<exists>c. insert_chapter1 content = Some c"
  by (simp add: insert_chapter1_def re_sub_def str_def tmpl)

lemma fix_headings_total: "\<exists>c. fix_headings U content = Some c"
proof -
  have p1: "\<exists>c'. fold_option (promote U (str ''section'') (str ''sec'')) SECTION_PATTERNS c = Some c'" for c
    by (rule fold_option_total, rule promote_total) (auto simp: str_def dest: SECTION_PATTERNS_no_bs)
  have p2: "\<exists>c'. fold_option (promote U (str ''subsection'') (str ''subsec'')) SUBSECTION_PATTERNS c = Some c'" for c
    by (rule fold_option_total, rule promote_total) (auto simp: str_def dest: SUBSECTION_PATTERNS_no_bs)
  have p3: "\<exists>ys. map_option_list (heading_line U) ls = Some ys" for ls
    by (rule map_option_list_total) (rule heading_line_total)
  show ?thesis
    unfolding fix_headings_def
    by (intro bind_total insert_chapter1_total p1 p2 p3)
      (simp_all add: re_sub_def str_def tmpl seq_def)
qed

lemma transform_total: "\<exists>c. transform U content = Some c"
  unfolding transform_def
  by (intro bind_total replace_acronyms_total fix_headings_total) (simp add: fsc_eq)

lemma chapter_names:
  "with_suffix (str ''chapter1.tex'') (str ''.tex.bak'') = str ''chapter1.tex.bak''"
  "with_suffix (str ''chapter2.tex'') (str ''.tex.bak'') = str ''chapter2.tex.bak''"
  "with_suffix (str ''chapter3.tex'') (str ''.tex.bak'') = str ''chapter3.tex.bak''"
  by (simp_all add: with_suffix_def suffix_of_def str_def)

lemma CHAPTERS_Some: "CHAPTERS n = Some cfg \<Longrightarrow> n = 1 \<or> n = 2 \<or> n = 3"
  by (auto simp: CHAPTERS_def split: if_splits)

lemma CHAPTERS_None: "CHAPTERS n = None \<longleftrightarrow> \<not> (1 \<le> n \<and> n \<le> 3)"
  by (auto simp: CHAPTERS_def)

lemma dec_small: "dec (Suc 0) = [49]" "dec 2 = [50]" "dec 3 = [51]"
  by (simp_all add: dec_def numeral_2_eq_2 numeral_3_eq_3)

lemma registry_names:
  "CHAPTERS n = Some cfg \<Longrightarrow> filename cfg = tex_name n \<and> with_suffix (filename cfg) (str ''.tex.bak'') = bak_name n"
  by (auto simp: CHAPTERS_def tex_name_def bak_name_def dec_small chapter_names str_def
      with_suffix_def suffix_of_def split: if_splits)

lemma dec_inj_small: "dec n \<noteq> [] "
  by (simp add: dec_def)

lemma save_chapter_registered:
  "CHAPTERS n = Some cfg \<Longrightarrow>
   save_chapter clock (n, c) w =
     print (str ''[OK] Saved '' @ tex_name n)
       (w\<lparr>files := (case files w (tex_name n) of
                      None \<Rightarrow> (files w)(tex_name n \<mapsto> create_chapter_file (clock n) n c)
                    | Some old \<Rightarrow> (files w)(bak_name n \<mapsto> old,
                                              tex_name n \<mapsto> create_chapter_file (clock n) n c))\<rparr>)"
  by (auto simp: save_chapter_def Let_def dest!: registry_names split: option.splits)

lemma save_chapter_skipped:
  "CHAPTERS n = None \<Longrightarrow>
   save_chapter clock (n, c) w =
     print (str ''[WARNING] Chapter '' @ dec n @ str '' not in configuration, skipping.'') w"
  by (simp add: save_chapter_def)

lemma names_distinct:
  assumes "CHAPTERS n = Some a" "CHAPTERS m = Some b"
  shows "tex_name n = tex_name m \<longleftrightarrow> n = m"
    and "bak_name n = bak_name m \<longleftrightarrow> n = m"
    and "tex_name n \<noteq> bak_name m"
  using assms
  by (auto simp: CHAPTERS_def tex_name_def bak_name_def dec_small str_def split: if_splits)

lemma save_chapter_frame:
  "CHAPTERS n = None \<or> (x \<noteq> tex_name n \<and> x \<noteq> bak_name n) \<Longrightarrow>
   files (save_chapter clock (n, c) w) x = files w x"
  by (cases "CHAPTERS n")
    (auto simp: save_chapter_skipped save_chapter_registered print_def split: option.splits)

lemma fold_save_untouched:
  "(\<And>n c. (n, c) \<in> set chs \<Longrightarrow> CHAPTERS n = None \<or> (x \<noteq> tex_name n \<and> x \<noteq> bak_name n)) \<Longrightarrow>
   files (fold (save_chapter clock) chs w) x = files w x"
proof (induction chs arbitrary: w)
  case Nil
  show ?case by simp
next
  case (Cons a chs)
  obtain n c where a: "a = (n, c)" by (cases a)
  have "files (fold (save_chapter clock) chs (save_chapter clock a w)) x
        = files (save_chapter clock a w) x"
    by (rule Cons.IH) (rule Cons.prems, rule list.set_intros(2), assumption)
  also have "\<dots> = files w x"
    unfolding a by (rule save_chapter_frame, rule Cons.prems [of n c]) (simp add: a)
  finally show ?case by simp
qed

lemma other_chapter_names:
  assumes "CHAPTERS n = Some cfg" "k \<noteq> n" "x = tex_name n \<or> x = bak_name n"
  shows "CHAPTERS k = None \<or> (x \<noteq> tex_name k \<and> x \<noteq> bak_name k)"
proof (cases "CHAPTERS k")
  case None
  then show ?thesis by simp
next
  case (Some b)
  show ?thesis
    using assms(2,3) names_distinct [OF assms(1) Some] names_distinct [OF Some assms(1)]
    by auto
qed

lemma fold_save_written:
  assumes "distinct (map fst chs)" "(n, c) \<in> set chs" "CHAPTERS n = Some cfg"
  shows "files (fold (save_chapter clock) chs w) (tex_name n) = Some (create_chapter_file (clock n) n c)
       \<and> files (fold (save_chapter clock) chs w) (bak_name n) =
           (case files w (tex_name n) of None \<Rightarrow> files w (bak_name n) | Some old \<Rightarrow> Some old)"
  using assms(1,2)
proof (induction chs arbitrary: w)
  case Nil
  then show ?case by simp
next
  case (Cons a chs)
  obtain m d where a: "a = (m, d)" by (cases a)
  show ?case
  proof (cases "m = n")
    case True
    have d: "d = c"
      using Cons.prems a True by (auto simp: rev_image_eqI)
    have notin: "k \<noteq> n" if "(k, e) \<in> set chs" for k e
      using Cons.prems a True that by (auto simp: rev_image_eqI)
    have rest: "files (fold (save_chapter clock) chs w') x = files w' x"
      if "x = tex_name n \<or> x = bak_name n" for w' x
      by (rule fold_save_untouched, rule other_chapter_names [OF assms(3) _ that]) (rule notin)
    have ne: "tex_name n \<noteq> bak_name n"
      by (rule names_distinct(3) [OF assms(3) assms(3)])
    show ?thesis
      using ne
      by (simp add: a True d rest save_chapter_registered [OF assms(3)] print_def split: option.splits)
  next
    case False
    then have mem: "(n, c) \<in> set chs" and dist: "distinct (map fst chs)"
      using Cons.prems a by auto
    have fr: "files (save_chapter clock (m, d) w) x = files w x"
      if "x = tex_name n \<or> x = bak_name n" for x
      by (rule save_chapter_frame, rule other_chapter_names [OF assms(3) False that])
    show ?thesis
      using Cons.IH [OF dist mem, of "save_chapter clock (m, d) w"]
        fr [of "tex_name n"] fr [of "bak_name n"]
      by (simp add: a split: option.splits)
  qed
qed

lemma split_keys:
  "map fst (snd (split_into_chapters buf)) =
     (if finditer_starts chapter_pattern buf = [] then [1]
      else [1..<Suc (length (finditer_starts chapter_pattern buf))])"
  by (simp add: split_into_chapters_def Let_def comp_def map_Suc_upt)

lemma split_distinct: "distinct (map fst (snd (split_into_chapters buf)))"
  by (simp add: split_keys)

lemma process_and_save_eq:
  "transform U content = Some buf \<Longrightarrow>
   process_and_save U clock content w =
     Some (fold (save_chapter clock) (snd (split_into_chapters buf))
            (w\<lparr>console := console w @ fst (split_into_chapters buf)\<rparr>))"
  by (simp add: process_and_save_def split: prod.splits)

lemma advance_simps [simp]:
  "remaining (advance k m) = drop k (remaining m)"
  "consumed (advance k m) = rev (take k (remaining m)) @ consumed m"
  "captures (advance k m) = captures m"
  by (simp_all add: advance_def)

lemma rx_position:
  "m' \<in> set (rx r m) \<Longrightarrow>
   \<exists>k \<le> length (remaining m). remaining m' = drop k (remaining m)
      \<and> consumed m' = rev (take k (remaining m)) @ consumed m"
proof (induction r arbitrary: m m')
  case (Cat a b)
  from Cat.prems obtain m1 where m1: "m1 \<in> set (rx a m)" and m': "m' \<in> set (rx b m1)"
    by auto
  from Cat.IH(1) [OF m1] obtain k where k: "k \<le> length (remaining m)"
    "remaining m1 = drop k (remaining m)" "consumed m1 = rev (take k (remaining m)) @ consumed m"
    by blast
  from Cat.IH(2) [OF m'] obtain j where j: "j \<le> length (remaining m1)"
    "remaining m' = drop j (remaining m1)" "consumed m' = rev (take j (remaining m1)) @ consumed m1"
    by blast
  have "take (k + j) (remaining m) = take k (remaining m) @ take j (drop k (remaining m))"
    by (simp add: take_add)
  then show ?case
    using k j by (intro exI [of _ "k + j"]) (simp add: add.commute)
next
  case (Grp n r)
  then obtain m1 where "m1 \<in> set (rx r m)" "remaining m' = remaining m1" "consumed m' = consumed m1"
    by auto
  then show ?case using Grp.IH [of m1 m] by auto
next
  case (Opt p)
  then show ?case
    by (auto simp: next_is_def split: if_splits list.splits intro: exI [of _ 0] exI [of _ 1])
next
  case (Star p)
  then have "\<exists>k. k \<le> length (takeWhile p (remaining m)) \<and> m' = advance k m"
    by (auto simp: less_Suc_eq_le; metis less_imp_le)
  then obtain k where "k \<le> length (takeWhile p (remaining m))" "m' = advance k m" by blast
  then show ?case
    using length_takeWhile_le [of p "remaining m"] by (intro exI [of _ k]) simp
next
  case (Plus p)
  then have "\<exists>k. k \<le> length (takeWhile p (remaining m)) \<and> m' = advance k m"
    by (auto simp: less_Suc_eq_le; metis less_imp_le)
  then obtain k where "k \<le> length (takeWhile p (remaining m))" "m' = advance k m" by blast
  then show ?case
    using length_takeWhile_le [of p "remaining m"] by (intro exI [of _ k]) simp
next
  case (LazyStar p)
  then have "\<exists>k. k \<le> length (takeWhile p (remaining m)) \<and> m' = advance k m"
    by (auto simp: less_Suc_eq_le; metis less_imp_le)
  then obtain k where "k \<le> length (takeWhile p (remaining m))" "m' = advance k m" by blast
  then show ?case
    using length_takeWhile_le [of p "remaining m"] by (intro exI [of _ k]) simp
next
  case (Lit s)
  then have "m' = advance (length s) m" "take (length s) (remaining m) = s"
    by (auto split: if_splits)
  moreover have "length s \<le> length (remaining m)"
    using arg_cong [OF \<open>take (length s) (remaining m) = s\<close>, of length] by simp
  ultimately show ?case
    by (intro exI [of _ "length s"]) simp
next
  case (LitI s)
  then have "m' = advance (length s) m" "length s \<le> length (remaining m)"
    by (auto split: if_splits)
  then show ?case
    by (intro exI [of _ "length s"]) auto
next
  case (One p)
  then have "m' = advance 1 m" "remaining m \<noteq> []"
    by (auto simp: next_is_def split: if_splits list.splits)
  then show ?case
    by (intro exI [of _ 1]) (auto simp: Suc_le_eq)
qed (auto split: if_splits intro: exI [of _ 0])

lemma rx_remaining_subset:
  "m' \<in> set (rx r m) \<Longrightarrow> set (remaining m') \<subseteq> set (remaining m)"
  using rx_position [of m' r m] by (auto dest: in_set_dropD)

lemma ci_eq_cases:
  "ci_eq p t \<Longrightarrow> t = p \<or> t = ascii_lower p \<or> t = ascii_upper p \<or>
     (ascii_lower p = 107 \<and> t = 8490) \<or> (ascii_lower p = 115 \<and> t = 383) \<or>
     (ascii_lower p = 105 \<and> (t = 304 \<or> t = 305))"
  by (auto simp: ci_eq_def split: if_splits)

lemma needs_no_match:
  "needs D r \<Longrightarrow> \<forall>c \<in> set (remaining m). \<not> D c \<Longrightarrow> rx r m = []"
proof (induction r arbitrary: m)
  case (Lit s)
  then obtain c where c: "c \<in> set s" "D c" by (auto simp: list_ex_iff)
  show ?case
  proof (rule ccontr)
    assume "rx (Lit s) m \<noteq> []"
    then have "take (length s) (remaining m) = s" by (auto split: if_splits)
    then have "set s \<subseteq> set (remaining m)" by (metis set_take_subset)
    then show False using c Lit.prems(2) by auto
  qed
next
  case (LitI s)
  then obtain p where p: "p \<in> set s" "D (ascii_lower p)" "D (ascii_upper p)" "D p"
    "ascii_lower p = 107 \<longrightarrow> D 8490" "ascii_lower p = 115 \<longrightarrow> D 383"
    "ascii_lower p = 105 \<longrightarrow> D 304 \<and> D 305"
    by (auto simp: list_ex_iff)
  show ?case
  proof (rule ccontr)
    assume "rx (LitI s) m \<noteq> []"
    then have *: "list_all2 ci_eq s (take (length s) (remaining m))"
      by (auto split: if_splits)
    obtain i where i: "i < length s" "s ! i = p"
      using p(1) by (auto simp: in_set_conv_nth)
    have len: "length (take (length s) (remaining m)) = length s"
      using list_all2_lengthD [OF *] by simp
    have "ci_eq p (take (length s) (remaining m) ! i)"
      using list_all2_nthD [OF * i(1)] i(2) by simp
    moreover have "take (length s) (remaining m) ! i \<in> set (take (length s) (remaining m))"
      using i(1) len by (metis nth_mem)
    ultimately obtain t where t: "t \<in> set (take (length s) (remaining m))" "ci_eq p t"
      by blast
    have "D t"
    proof -
      consider "t = p" | "t = ascii_lower p" | "t = ascii_upper p"
        | "ascii_lower p = 107" "t = 8490" | "ascii_lower p = 115" "t = 383"
        | "ascii_lower p = 105" "t = 304" | "ascii_lower p = 105" "t = 305"
        using ci_eq_cases [OF t(2)] by metis
      then show ?thesis
      proof cases
        case 1 then show ?thesis using p(4) by simp
      next
        case 2 then show ?thesis using p(2) by simp
      next
        case 3 then show ?thesis using p(3) by simp
      next
        case 4 then show ?thesis using p(5) by simp
      next
        case 5 then show ?thesis using p(6) by simp
      next
        case 6 then show ?thesis using p(7) by simp
      next
        case 7 then show ?thesis using p(7) by simp
      qed
    qed
    moreover have "t \<in> set (remaining m)"
      using t(1) by (rule in_set_takeD)
    ultimately show False using LitI.prems(2) by blast
  qed
next
  case (Cat a b)
  show ?case
  proof (cases "needs D a")
    case True
    then show ?thesis using Cat.IH(1) Cat.prems(2) by simp
  next
    case False
    then have nb: "needs D b" using Cat.prems(1) by simp
    have "rx b m1 = []" if "m1 \<in> set (rx a m)" for m1
      using Cat.IH(2) [OF nb, of m1] rx_remaining_subset [OF that] Cat.prems(2) by blast
    then show ?thesis by simp
  qed
qed auto

lemma needs_first_match:
  "needs D r \<Longrightarrow> \<forall>c \<in> set suf. \<not> D c \<Longrightarrow> first_match r pre suf = None"
  by (simp add: first_match_def needs_no_match)

lemma needs_scan:
  "needs D r \<Longrightarrow> \<forall>c \<in> set s. \<not> D c \<Longrightarrow> scan r pre s = map Gap s"
proof (induction s arbitrary: pre)
  case Nil
  then show ?case by (simp add: scan.simps [of _ _ "[]"] needs_first_match)
next
  case (Cons c cs)
  then show ?case by (simp add: scan.simps [of _ _ "c # cs"] needs_first_match)
qed

lemma rebuild_gaps [simp]: "rebuild ps lim (map Gap s) = s"
  by (induction s) auto

lemma needs_subst: "needs D r \<Longrightarrow> \<forall>c \<in> set s. \<not> D c \<Longrightarrow> subst r R s = s"
  by (simp add: subst_def needs_scan)

lemma needs_re_sub:
  "needs D r \<Longrightarrow> \<forall>c \<in> set s. \<not> D c \<Longrightarrow> parse_template (ngroups r) t = Some ps \<Longrightarrow>
   re_sub r t n s = Some s"
  by (simp add: re_sub_def needs_scan)

lemma needs_re_search: "needs D r \<Longrightarrow> \<forall>c \<in> set s. \<not> D c \<Longrightarrow> \<not> re_search r s"
  by (simp add: re_search_def needs_scan list_ex_iff)

lemma fsc_inert:
  assumes "\<forall>c \<in> set s. \<not> trigger c"
  shows "fix_special_characters U s = Some s"
  unfolding fsc_eq
  by (simp add: needs_subst [OF _ assms] seq_def trigger_def str_def)

lemma fold_option_id:
  "(\<And>x. x \<in> set xs \<Longrightarrow> f x s = Some s) \<Longrightarrow> fold_option f xs s = Some s"
  by (induction xs) auto

lemma acronym_step_inert:
  assumes "\<forall>c \<in> set s. \<not> trigger c"
  shows "acronym_step (short, full) (s, {}) = Some (s, {})"
proof -
  have "\<not> re_search (seq [LitI full, Star isspace, LitI (str ''('' @ short @ str '')'')]) s"
    by (rule needs_re_search [OF _ assms]) (simp add: seq_def trigger_def str_def ascii_lower_def
        ascii_upper_def ascii_upper_letter_def ascii_lower_letter_def)
  then show ?thesis
    by (simp add: acronym_step_def)
qed

lemma replace_acronyms_inert:
  assumes "\<forall>c \<in> set s. \<not> trigger c"
  shows "replace_acronyms s = Some s"
proof -
  have "fold_option acronym_step ACRONYMS (s, {}) = Some (s, {})"
  proof (rule fold_option_id)
    fix x assume "x \<in> set ACRONYMS"
    show "acronym_step x (s, {}) = Some (s, {})"
      using acronym_step_inert [OF assms, of "fst x" "snd x"] by simp
  qed
  then show ?thesis by (simp add: replace_acronyms_def)
qed

lemma contains_subset: "contains s sub \<Longrightarrow> set sub \<subseteq> set s"
proof (induction s)
  case Nil
  then show ?case by simp
next
  case (Cons c cs)
  show ?case
  proof (cases "take (length sub) (c # cs) = sub")
    case True
    then show ?thesis by (metis set_take_subset)
  next
    case False
    then show ?thesis using Cons by auto
  qed
qed

lemma promote_template:
  assumes "BS \<notin> set cmd" "BS \<notin> set pre" "BS \<notin> set t" "BS \<notin> set lab"
  shows "\<exists>ps. parse_template n ([BS, BS] @ cmd @ str ''{'' @ t @ str ''}'' @ [NL] @ [BS, BS]
      @ str ''label{'' @ pre @ str '':'' @ lab @ str ''}'') = Some ps"
proof -
  have "BS \<notin> set (cmd @ str ''{'' @ t @ str ''}'' @ [NL])"
    using assms by (simp add: str_def)
  moreover have "BS \<notin> set (str ''label{'' @ pre @ str '':'' @ lab @ str ''}'')"
    using assms by (simp add: str_def)
  ultimately show ?thesis
    using parse_template_append_plain [of "cmd @ str ''{'' @ t @ str ''}'' @ [NL]" n]
      parse_template_plain [of "str ''label{'' @ pre @ str '':'' @ lab @ str ''}''" n]
    by (simp add: parse_template_bs)
qed

lemma promote_inert:
  assumes "\<forall>c \<in> set s. \<not> trigger c" "BS \<notin> set cmd" "BS \<notin> set pre" "BS \<notin> set t"
  shows "promote U cmd pre t s = Some s"
proof -
  obtain lab where lab: "slugify U (str '':,'') t = Some lab" "BS \<notin> set lab"
    using slug_char_not_bs by (auto simp: slugify_eq)
  let ?r = "seq [LitI (BS # str ''textbf{'' @ t), Star (\<lambda>c. c \<noteq> 125), LitI (str ''}'')]"
  obtain ps where ps: "parse_template (ngroups ?r) ([BS, BS] @ cmd @ str ''{'' @ t @ str ''}'' @ [NL] @ [BS, BS]
      @ str ''label{'' @ pre @ str '':'' @ lab @ str ''}'') = Some ps"
    using promote_template [OF assms(2,3,4) lab(2)] by blast
  have "needs trigger ?r"
    by (simp add: seq_def trigger_def str_def ascii_lower_def ascii_upper_def
        ascii_upper_letter_def ascii_lower_letter_def)
  then show ?thesis
    using needs_re_sub [OF _ assms(1) ps] by (simp add: promote_def lab)
qed

lemma join_split_nl [simp]: "join_nl (split_nl s) = s"
proof (induction s)
  case Nil
  show ?case by simp
next
  case (Cons c cs)
  then show ?case
    by (cases "split_nl cs"; cases "tl (split_nl cs)") (auto split: list.splits)
qed

lemma split_nl_chars: "l \<in> set (split_nl s) \<Longrightarrow> set l \<subseteq> set s"
proof (induction s arbitrary: l)
  case Nil
  then show ?case by simp
next
  case (Cons c cs)
  then show ?case
    by (cases "split_nl cs") (fastforce split: if_splits)+
qed

lemma strip_chars: "set (strip s) \<subseteq> set s"
  unfolding strip_def
  by (metis set_dropWhileD set_rev subsetI)

lemma heading_line_inert:
  assumes "\<forall>c \<in> set line. \<not> trigger c"
  shows "heading_line U line = Some [line]"
proof -
  have st: "\<forall>c \<in> set (strip line). \<not> trigger c"
    using assms strip_chars by blast
  have "first_match hyper_pattern [] (strip line) = None"
    by (rule needs_first_match [OF _ st]) (simp add: hyper_pattern_def seq_def trigger_def str_def)
  moreover have "first_match bold_only_pattern [] (strip line) = None"
    by (rule needs_first_match [OF _ st]) (simp add: bold_only_pattern_def seq_def trigger_def str_def)
  ultimately show ?thesis
    by (simp add: heading_line_def)
qed

lemma map_option_list_id:
  "(\<And>x. x \<in> set xs \<Longrightarrow> f x = Some [x]) \<Longrightarrow> map_option_list f xs = Some (map (\<lambda>x. [x]) xs)"
  by (induction xs) auto

lemma fix_headings_inert:
  assumes "\<forall>c \<in> set s. \<not> trigger c"
  shows "fix_headings U s = Some s"
proof -
  have "\<not> contains s (str ''Background and Significance'')"
  proof
    assume "contains s (str ''Background and Significance'')"
    from contains_subset [OF this] have "102 \<in> set s" by (simp add: str_def)
    then show False using assms by (auto simp: trigger_def str_def)
  qed
  then have s1: "insert_chapter1 s = Some s"
    by (simp add: insert_chapter1_def)
  have s2: "fold_option (promote U (str ''section'') (str ''sec'')) SECTION_PATTERNS s = Some s"
    by (rule fold_option_id, rule promote_inert [OF assms])
      (auto simp: str_def dest: SECTION_PATTERNS_no_bs)
  have s3: "fold_option (promote U (str ''subsection'') (str ''subsec'')) SUBSECTION_PATTERNS s = Some s"
    by (rule fold_option_id, rule promote_inert [OF assms])
      (auto simp: str_def dest: SUBSECTION_PATTERNS_no_bs)
  have s4: "map_option_list (heading_line U) (split_nl s) = Some (map (\<lambda>x. [x]) (split_nl s))"
    by (rule map_option_list_id, rule heading_line_inert) (use assms split_nl_chars in blast)
  have cc: "concat (map (\<lambda>x. [x]) xs) = xs" for xs :: "pystr list"
    by (induction xs) auto
  have c2: "re_sub (seq [LitI (str ''Chapter''), Plus isspace, Lit (str ''2''), Star isspace,
                              Plus (\<lambda>c. c = NL), Star isspace, LitI (str ''Literature''),
                              Plus isspace, LitI (str ''review'')])
                  ([BS, BS] @ str ''chapter{Literature Review}'' @ [BS, 110] @
                   [BS, BS] @ str ''label{ch:literature-review}'') 0 s = Some s"
    by (rule needs_re_sub [OF _ assms]) (simp_all add: seq_def trigger_def str_def tmpl)
  have c3: "re_sub (seq [LitI (BS # str ''textbf{Chapter''), Plus isspace, Lit (str ''3}''),
                              Star isspace, Plus (\<lambda>c. c = NL), Star isspace,
                              LitI (BS # str ''textbf{3.''), Star isspace, LitI (str ''Research''),
                              Plus isspace, LitI (str ''Methodology}'')])
                  ([BS, BS] @ str ''chapter{Research Methodology}'' @ [BS, 110] @
                   [BS, BS] @ str ''label{ch:methodology}'') 0 s = Some s"
    by (rule needs_re_sub [OF _ assms]) (simp_all add: seq_def trigger_def str_def tmpl)
  have c4: "re_sub (seq [LitI (str ''Chapter''), Plus isspace, Lit (str ''3''), Star isspace,
                              Plus (\<lambda>c. c = NL), LazyStar (\<lambda>c. c \<noteq> NL), LitI (str ''Research''),
                              Plus isspace, LitI (str ''Methodology'')])
                  ([BS, BS] @ str ''chapter{Research Methodology}'' @ [BS, 110] @
                   [BS, BS] @ str ''label{ch:methodology}'') 0 s = Some s"
    by (rule needs_re_sub [OF _ assms]) (simp_all add: seq_def trigger_def str_def tmpl)
  show ?thesis
    unfolding fix_headings_def
    by (simp only: s1 c2 c3 c4 s2 s3 s4 cc bind.bind_lunit join_split_nl)
qed

lemma transform_inert:
  "\<forall>c \<in> set s. \<not> trigger c \<Longrightarrow> transform U s = Some s"
  by (simp add: transform_def fsc_inert replace_acronyms_inert fix_headings_inert)

lemma number_of_digits:
  "n < f \<Longrightarrow> foldl (\<lambda>a d. 10 * a + (d - 48)) 0 (digits_of f n) = n"
proof (induction f arbitrary: n)
  case 0
  then show ?case by simp
next
  case (Suc f)
  show ?case
  proof (cases "n < 10")
    case True
    then show ?thesis by simp
  next
    case False
    then have "n div 10 < f" using Suc.prems by simp
    from Suc.IH [OF this] show ?thesis using False by simp
  qed
qed

lemma dec_inj: "dec n = dec m \<Longrightarrow> n = m"
  using number_of_digits [of n "Suc n"] number_of_digits [of m "Suc m"]
  by (simp add: dec_def)

lemma tex_name_inj: "tex_name n = tex_name m \<longleftrightarrow> n = m"
  by (auto simp: tex_name_def dest: dec_inj)

lemma bak_name_inj: "bak_name n = bak_name m \<longleftrightarrow> n = m"
  by (auto simp: bak_name_def dest: dec_inj)

lemma tex_not_bak: "tex_name n \<noteq> bak_name m"
proof
  assume "tex_name n = bak_name m"
  then have "last (tex_name n) = last (bak_name m)" by simp
  then show False by (simp add: tex_name_def bak_name_def str_def)
qed

lemma fold_save_files_cong:
  "files w = files w' \<Longrightarrow>
   files (fold (save_chapter clock) chs w) = files (fold (save_chapter clock) chs w')"
proof (induction chs arbitrary: w w')
  case Nil
  then show ?case by simp
next
  case (Cons a chs)
  have "files (save_chapter clock a w) = files (save_chapter clock a w')"
    using Cons.prems
    by (cases a; cases "CHAPTERS (fst a)")
      (auto simp: save_chapter_def print_def Let_def split: option.splits)
  from Cons.IH [OF this] show ?case by simp
qed

lemma fold_save_filter:
  "files (fold (save_chapter clock) (filter (\<lambda>(k, c). CHAPTERS k \<noteq> None) chs) w)
   = files (fold (save_chapter clock) chs w)"
proof (induction chs arbitrary: w)
  case Nil
  show ?case by simp
next
  case (Cons a chs)
  obtain k c where a: "a = (k, c)" by (cases a)
  show ?case
  proof (cases "CHAPTERS k")
    case None
    have "files (save_chapter clock (k, c) w) = files w"
      by (simp add: save_chapter_skipped [OF None] print_def)
    from fold_save_files_cong [OF this] show ?thesis
      using None Cons.IH [of w] by (simp add: a)
  next
    case (Some cfg)
    then show ?thesis using Cons.IH by (simp add: a)
  qed
qed

lemma split_no_marker:
  "finditer_starts chapter_pattern buf = [] \<Longrightarrow> snd (split_into_chapters buf) = [(1, buf)]"
  by (simp add: split_into_chapters_def)

lemma split_markers:
  "finditer_starts chapter_pattern buf = starts \<Longrightarrow> starts \<noteq> [] \<Longrightarrow>
   snd (split_into_chapters buf) =
     map (\<lambda>i. (i + 1, strip (slice buf (starts ! i)
                  (if i + 1 < length starts then starts ! (i + 1) else length buf))))
       [0..<length starts]"
  by (auto simp: split_into_chapters_def Let_def)

lemma header_text:
  "create_chapter_file now (Suc 0) c =
     str ''% chapter1.tex -- Chapter 1: Introduction'' @ [NL] @ str ''%'' @ [NL]
     @ str ''% Natural Rubber Latex Thesis'' @ [NL]
     @ str ''% Auto-generated from Word document - '' @ now @ [NL, NL] @ c"
  by (simp add: create_chapter_file_def CHAPTERS_def dec_small str_def)

lemmas ev = str_def first_match_def seq_def advance_def next_is_def re_sub_def re_search_def
  ascii_only_def isspace_def ascii_letter_def ascii_digit_def ascii_upper_letter_def
  ascii_lower_letter_def ascii_lower_def ascii_upper_def ci_eq_def scan.simps tmpl

text \<open>
  C9. When the transformed text has no match of the chapter pattern, the splitter
  returns the single entry of index 1 whose content is the whole text, untrimmed, and
  the run ends with \<^verbatim>\<open>chapter1.tex\<close> holding the header of chapter 1 followed by that
  whole text; the content the file had before, if any, is then in \<^verbatim>\<open>chapter1.tex.bak\<close>,
  and no other file is touched.
\<close>

theorem whole_buffer_to_chapter1:
  assumes "transform U content = Some buf" "finditer_starts chapter_pattern buf = []"
  shows "snd (split_into_chapters buf) = [(1, buf)] \<and>
         (\<exists>w'. process_and_save U clock content w = Some w' \<and>
            files w' = (case files w (str ''chapter1.tex'') of
                None \<Rightarrow> (files w)(str ''chapter1.tex'' \<mapsto> create_chapter_file (clock 1) 1 buf)
              | Some old \<Rightarrow> (files w)(str ''chapter1.tex.bak'' \<mapsto> old,
                                        str ''chapter1.tex'' \<mapsto> create_chapter_file (clock 1) 1 buf))) \<and>
         create_chapter_file (clock 1) 1 buf =
           str ''% chapter1.tex -- Chapter 1: Introduction'' @ [NL] @ str ''%'' @ [NL]
           @ str ''% Natural Rubber Latex Thesis'' @ [NL]
           @ str ''% Auto-generated from Word document - '' @ clock 1 @ [NL, NL] @ buf"
proof -
  have chs: "snd (split_into_chapters buf) = [(1, buf)]"
    by (rule split_no_marker [OF assms(2)])
  have reg: "CHAPTERS (Suc 0) = Some \<lparr>title = str ''Introduction'', label = str ''ch:introduction'',
                          filename = str ''chapter1.tex''\<rparr>"
    by (simp add: CHAPTERS_def)
  have names: "tex_name (Suc 0) = str ''chapter1.tex''" "bak_name (Suc 0) = str ''chapter1.tex.bak''"
    by (simp_all add: tex_name_def bak_name_def dec_small str_def)
  show ?thesis
    by (simp add: process_and_save_eq [OF assms(1)] chs save_chapter_registered [OF reg] names
        print_def header_text split: option.splits)
qed

theorem whole_buffer_to_chapter1_witness:
  "transform ascii_only (str ''Hello'') = Some (str ''Hello'') \<and>
   finditer_starts chapter_pattern (str ''Hello'') = [] \<and>
   snd (split_into_chapters (str ''Hello'')) = [(1, str ''Hello'')] \<and>
   (\<exists>w'. process_and_save ascii_only (\<lambda>n. str ''2026-01-01 00:00:00'') (str ''Hello'')
            \<lparr>files = [str ''chapter1.tex'' \<mapsto> str ''old''], console = []\<rparr> = Some w' \<and>
      files w' = [str ''chapter1.tex.bak'' \<mapsto> str ''old'',
                  str ''chapter1.tex'' \<mapsto>
                    str ''% chapter1.tex -- Chapter 1: Introduction'' @ [NL] @ str ''%'' @ [NL]
                    @ str ''% Natural Rubber Latex Thesis'' @ [NL]
                    @ str ''% Auto-generated from Word document - 2026-01-01 00:00:00''
                    @ [NL, NL] @ str ''Hello''])"
proof -
  have t: "transform ascii_only (str ''Hello'') = Some (str ''Hello'')"
    by (rule transform_inert) (simp add: str_def trigger_def)
  have f: "finditer_starts chapter_pattern (str ''Hello'') = []"
    by (simp add: finditer_starts_def chapter_pattern_def ev)
  show ?thesis
    using whole_buffer_to_chapter1 [OF t f, of "\<lambda>n. str ''2026-01-01 00:00:00''"
        "\<lparr>files = [str ''chapter1.tex'' \<mapsto> str ''old''], console = []\<rparr>"] t f
    by (simp add: header_text) (simp add: str_def)
qed

lemma split_item:
  assumes "finditer_starts chapter_pattern buf = starts" "i < length starts"
  shows "(i + 1, strip (slice buf (starts ! i)
            (if i + 1 < length starts then starts ! (i + 1) else length buf)))
         \<in> set (snd (split_into_chapters buf))"
proof -
  have ne: "starts \<noteq> []" using assms(2) by auto
  have "i \<in> set [0..<length starts]" using assms(2) by simp
  then have "(\<lambda>i. (i + 1, strip (slice buf (starts ! i)
            (if i + 1 < length starts then starts ! (i + 1) else length buf)))) i
      \<in> (\<lambda>i. (i + 1, strip (slice buf (starts ! i)
            (if i + 1 < length starts then starts ! (i + 1) else length buf)))) ` set [0..<length starts]"
    by (rule imageI)
  then show ?thesis
    unfolding split_markers [OF assms(1) ne] by simp
qed

lemma map_of_split:
  "(n, c) \<in> set (snd (split_into_chapters buf)) \<Longrightarrow> map_of (snd (split_into_chapters buf)) n = Some c"
  by (rule map_of_is_SomeI [OF split_distinct])

lemma split_unregistered_untouched:
  assumes "x = tex_name n \<or> x = bak_name n" "CHAPTERS n = None"
  shows "files (fold (save_chapter clock) chs w) x = files w x"
proof (rule fold_save_untouched)
  fix k c assume "(k, c) \<in> set chs"
  show "CHAPTERS k = None \<or> (x \<noteq> tex_name k \<and> x \<noteq> bak_name k)"
  proof (cases "CHAPTERS k")
    case None
    then show ?thesis by simp
  next
    case (Some cfg)
    then have "k \<noteq> n" using assms(2) by auto
    then show ?thesis
      using assms(1) tex_not_bak [of n k] tex_not_bak [of k n]
      by (auto simp: tex_name_inj bak_name_inj)
  qed
qed



lemma run_no_marker:
  assumes "transform U content = Some buf" "finditer_starts chapter_pattern buf = []"
  shows "\<exists>w'. process_and_save U clock content w = Some w' \<and>
            files w' = (case files w (str ''chapter1.tex'') of
                None \<Rightarrow> (files w)(str ''chapter1.tex'' \<mapsto> create_chapter_file (clock 1) 1 buf)
              | Some old \<Rightarrow> (files w)(str ''chapter1.tex.bak'' \<mapsto> old,
                                        str ''chapter1.tex'' \<mapsto> create_chapter_file (clock 1) 1 buf))"
proof -
  have chs: "snd (split_into_chapters buf) = [(1, buf)]"
    by (rule split_no_marker [OF assms(2)])
  have reg: "CHAPTERS (Suc 0) = Some \<lparr>title = str ''Introduction'', label = str ''ch:introduction'',
                          filename = str ''chapter1.tex''\<rparr>"
    by (simp add: CHAPTERS_def)
  have names: "tex_name (Suc 0) = str ''chapter1.tex''" "bak_name (Suc 0) = str ''chapter1.tex.bak''"
    by (simp_all add: tex_name_def bak_name_def dec_small str_def)
  show ?thesis
    by (simp add: process_and_save_eq [OF assms(1)] chs save_chapter_registered [OF reg] names
        print_def split: option.splits)
qed

lemma hello_run:
  "\<exists>w'. process_and_save ascii_only clock (str ''Hello'') w = Some w' \<and>
      files w' = (case files w (str ''chapter1.tex'') of
          None \<Rightarrow> (files w)(str ''chapter1.tex'' \<mapsto> create_chapter_file (clock 1) 1 (str ''Hello''))
        | Some old \<Rightarrow> (files w)(str ''chapter1.tex.bak'' \<mapsto> old,
              str ''chapter1.tex'' \<mapsto> create_chapter_file (clock 1) 1 (str ''Hello'')))"
proof (rule run_no_marker)
  show "transform ascii_only (str ''Hello'') = Some (str ''Hello'')"
    by (rule transform_inert) (simp add: str_def trigger_def)
  show "finditer_starts chapter_pattern (str ''Hello'') = []"
    by (simp add: finditer_starts_def chapter_pattern_def ev)
qed

lemma header_split:
  "\<exists>head. \<forall>now. create_chapter_file now n c = head @ now @ [NL, NL] @ c"
  by (rule exI [of _ "str ''% '' @ filename (case CHAPTERS n of Some c \<Rightarrow> c
                    | None \<Rightarrow> \<lparr>title = str ''Chapter '' @ dec n,
                               label = str ''ch:chapter'' @ dec n,
                               filename = str ''chapter'' @ dec n @ str ''.tex''\<rparr>)
          @ str '' -- Chapter '' @ dec n @ str '': ''
          @ title (case CHAPTERS n of Some c \<Rightarrow> c
                    | None \<Rightarrow> \<lparr>title = str ''Chapter '' @ dec n,
                               label = str ''ch:chapter'' @ dec n,
                               filename = str ''chapter'' @ dec n @ str ''.tex''\<rparr>) @ [NL] @ str ''%'' @ [NL]
          @ str ''% Natural Rubber Latex Thesis'' @ [NL]
          @ str ''% Auto-generated from Word document - ''"])
    (simp add: create_chapter_file_def Let_def)

text \<open>
  C1 (as the code has it). Two runs of the pipeline on the same text, the second on the
  files the first one left: each chapter of the registry that the split yields is written
  by both runs with the same content under a header that contains the time read at the
  run, so the two files differ exactly where the two time stamps differ; after the
  second run the backup of the chapter is the file the first run wrote.
\<close>

theorem second_run_rewrites_and_backs_up:
  assumes "transform U content = Some buf"
    and "(n, c) \<in> set (snd (split_into_chapters buf))"
    and "CHAPTERS n = Some cfg"
  shows "\<exists>w1 w2. process_and_save U t1 content w = Some w1 \<and>
           process_and_save U t2 content w1 = Some w2 \<and>
           files w1 (tex_name n) = Some (create_chapter_file (t1 n) n c) \<and>
           files w2 (tex_name n) = Some (create_chapter_file (t2 n) n c) \<and>
           files w2 (bak_name n) = files w1 (tex_name n) \<and>
           (\<exists>head. \<forall>now. create_chapter_file now n c = head @ now @ [NL, NL] @ c)"
proof -
  let ?chs = "snd (split_into_chapters buf)"
  let ?p = "fst (split_into_chapters buf)"
  let ?w1 = "fold (save_chapter t1) ?chs (w\<lparr>console := console w @ ?p\<rparr>)"
  let ?w2 = "fold (save_chapter t2) ?chs (?w1\<lparr>console := console ?w1 @ ?p\<rparr>)"
  have r1: "process_and_save U t1 content w = Some ?w1"
    by (rule process_and_save_eq [OF assms(1)])
  have r2: "process_and_save U t2 content ?w1 = Some ?w2"
    by (rule process_and_save_eq [OF assms(1)])
  have f1: "files ?w1 (tex_name n) = Some (create_chapter_file (t1 n) n c)"
    using fold_save_written [OF split_distinct assms(2,3)] by simp
  have f2: "files ?w2 (tex_name n) = Some (create_chapter_file (t2 n) n c)"
       "files ?w2 (bak_name n) = files ?w1 (tex_name n)"
    using fold_save_written [OF split_distinct assms(2,3), of t2 "?w1\<lparr>console := console ?w1 @ ?p\<rparr>"] f1
    by simp_all
  show ?thesis
    using r1 r2 f1 f2 header_split [of n c] by blast
qed

theorem second_run_rewrites_and_backs_up_witness:
  "transform ascii_only (str ''Hello'') = Some (str ''Hello'') \<and>
   (1, str ''Hello'') \<in> set (snd (split_into_chapters (str ''Hello''))) \<and>
   CHAPTERS 1 = Some \<lparr>title = str ''Introduction'', label = str ''ch:introduction'',
                          filename = str ''chapter1.tex''\<rparr> \<and>
   (\<exists>w1 w2. process_and_save ascii_only (\<lambda>n. str ''2026-01-01 00:00:00'') (str ''Hello'')
               \<lparr>files = Map.empty, console = []\<rparr> = Some w1 \<and>
      process_and_save ascii_only (\<lambda>n. str ''2026-01-01 00:00:01'') (str ''Hello'') w1 = Some w2 \<and>
      files w1 (tex_name 1) = Some (create_chapter_file (str ''2026-01-01 00:00:00'') 1 (str ''Hello'')) \<and>
      files w2 (tex_name 1) = Some (create_chapter_file (str ''2026-01-01 00:00:01'') 1 (str ''Hello'')) \<and>
      files w2 (bak_name 1) = files w1 (tex_name 1))"
proof -
  have t: "transform ascii_only (str ''Hello'') = Some (str ''Hello'')"
    by (rule transform_inert) (simp add: str_def trigger_def)
  have f: "finditer_starts chapter_pattern (str ''Hello'') = []"
    by (simp add: finditer_starts_def chapter_pattern_def ev)
  have m: "(1, str ''Hello'') \<in> set (snd (split_into_chapters (str ''Hello'')))"
    by (simp add: split_no_marker [OF f])
  have r: "CHAPTERS 1 = Some \<lparr>title = str ''Introduction'', label = str ''ch:introduction'',
                          filename = str ''chapter1.tex''\<rparr>"
    by (simp add: CHAPTERS_def)
  show ?thesis
    using second_run_rewrites_and_backs_up [OF t m r, of "\<lambda>n. str ''2026-01-01 00:00:00''"
        "\<lparr>files = Map.empty, console = []\<rparr>" "\<lambda>n. str ''2026-01-01 00:00:01''"] t m r
    by blast
qed

theorem second_run_not_identical:
  "\<exists>w1 w2. process_and_save ascii_only (\<lambda>n. str ''2026-01-01 00:00:00'') (str ''Hello'')
              \<lparr>files = Map.empty, console = []\<rparr> = Some w1 \<and>
     process_and_save ascii_only (\<lambda>n. str ''2026-01-01 00:00:01'') (str ''Hello'') w1 = Some w2 \<and>
     files w2 (str ''chapter1.tex'') \<noteq> files w1 (str ''chapter1.tex'')"
proof -
  obtain w1 where w1: "process_and_save ascii_only (\<lambda>n. str ''2026-01-01 00:00:00'') (str ''Hello'')
              \<lparr>files = Map.empty, console = []\<rparr> = Some w1"
     "files w1 (str ''chapter1.tex'') = Some (create_chapter_file (str ''2026-01-01 00:00:00'') 1 (str ''Hello''))"
    using hello_run [of "\<lambda>n. str ''2026-01-01 00:00:00''" "\<lparr>files = Map.empty, console = []\<rparr>"]
    by auto
  obtain w2 where w2: "process_and_save ascii_only (\<lambda>n. str ''2026-01-01 00:00:01'') (str ''Hello'') w1 = Some w2"
     "files w2 (str ''chapter1.tex'') = Some (create_chapter_file (str ''2026-01-01 00:00:01'') 1 (str ''Hello''))"
    using hello_run [of "\<lambda>n. str ''2026-01-01 00:00:01''" w1] w1(2)
    by auto
  have "create_chapter_file (str ''2026-01-01 00:00:01'') 1 (str ''Hello'')
        \<noteq> create_chapter_file (str ''2026-01-01 00:00:00'') 1 (str ''Hello'')"
    by (simp add: header_text str_def)
  then show ?thesis
    using w1 w2 by auto
qed

text \<open>
  C8. For an index that the split yields and the registry does not have, the writer
  only prints the warning: the files after the run are those of a run over the entries
  of the registry alone, and neither the file nor the backup of the skipped index
  changes.
\<close>

theorem unregistered_chapter_skipped:
  assumes "transform U content = Some buf"
    and "(n, c) \<in> set (snd (split_into_chapters buf))"
    and "CHAPTERS n = None"
  shows "save_chapter clock (n, c) w0 =
           w0\<lparr>console := console w0 @
              [str ''[WARNING] Chapter '' @ dec n @ str '' not in configuration, skipping.'']\<rparr> \<and>
         (\<exists>w'. process_and_save U clock content w = Some w' \<and>
            files w' = files (fold (save_chapter clock)
                         (filter (\<lambda>(k, c). CHAPTERS k \<noteq> None) (snd (split_into_chapters buf))) w) \<and>
            files w' (tex_name n) = files w (tex_name n) \<and>
            files w' (bak_name n) = files w (bak_name n))"
proof -
  let ?chs = "snd (split_into_chapters buf)"
  let ?w0 = "w\<lparr>console := console w @ fst (split_into_chapters buf)\<rparr>"
  have run: "process_and_save U clock content w = Some (fold (save_chapter clock) ?chs ?w0)"
    by (rule process_and_save_eq [OF assms(1)])
  have "files (fold (save_chapter clock) ?chs ?w0) = files (fold (save_chapter clock) ?chs w)"
    by (rule fold_save_files_cong) simp
  then have flt: "files (fold (save_chapter clock) ?chs ?w0)
      = files (fold (save_chapter clock) (filter (\<lambda>(k, c). CHAPTERS k \<noteq> None) ?chs) w)"
    by (simp only: fold_save_filter)
  have u1: "files (fold (save_chapter clock) ?chs ?w0) (tex_name n) = files w (tex_name n)"
    using split_unregistered_untouched [OF _ assms(3), of "tex_name n" clock ?chs ?w0] by simp
  have u2: "files (fold (save_chapter clock) ?chs ?w0) (bak_name n) = files w (bak_name n)"
    using split_unregistered_untouched [OF _ assms(3), of "bak_name n" clock ?chs ?w0] by simp
  show ?thesis
    using flt u1 u2 by (simp add: run save_chapter_skipped [OF assms(3)] print_def)
qed

lemma four_chapters_starts:
  "finditer_starts chapter_pattern
     (BS # str ''chapter{A}'' @ BS # str ''chapter{B}'' @ BS # str ''chapter{C}'' @ BS # str ''chapter{D}'')
   = [0, 11, 22, 33]"
  by (simp add: finditer_starts_def chapter_pattern_def ev)

theorem unregistered_chapter_skipped_witness:
  "transform ascii_only
     (BS # str ''chapter{A}'' @ BS # str ''chapter{B}'' @ BS # str ''chapter{C}'' @ BS # str ''chapter{D}'')
   = Some (BS # str ''chapter{A}'' @ BS # str ''chapter{B}'' @ BS # str ''chapter{C}'' @ BS # str ''chapter{D}'') \<and>
   (4, BS # str ''chapter{D}'') \<in> set (snd (split_into_chapters
     (BS # str ''chapter{A}'' @ BS # str ''chapter{B}'' @ BS # str ''chapter{C}'' @ BS # str ''chapter{D}''))) \<and>
   CHAPTERS 4 = None \<and>
   save_chapter (\<lambda>n. str ''2026-01-01 00:00:00'') (4, BS # str ''chapter{D}'')
       \<lparr>files = Map.empty, console = []\<rparr> =
     \<lparr>files = Map.empty,
       console = [str ''[WARNING] Chapter 4 not in configuration, skipping.'']\<rparr> \<and>
   (\<exists>w'. process_and_save ascii_only (\<lambda>n. str ''2026-01-01 00:00:00'')
       (BS # str ''chapter{A}'' @ BS # str ''chapter{B}'' @ BS # str ''chapter{C}'' @ BS # str ''chapter{D}'')
       \<lparr>files = [str ''chapter4.tex'' \<mapsto> str ''kept''], console = []\<rparr> = Some w' \<and>
      files w' (str ''chapter4.tex'') = Some (str ''kept'') \<and>
      files w' (str ''chapter4.tex.bak'') = None)"
proof -
  let ?d = "BS # str ''chapter{A}'' @ BS # str ''chapter{B}'' @ BS # str ''chapter{C}'' @ BS # str ''chapter{D}''"
  have t: "transform ascii_only ?d = Some ?d"
    by (rule transform_inert) (simp add: str_def trigger_def)
  have m: "(4, BS # str ''chapter{D}'') \<in> set (snd (split_into_chapters ?d))"
    using split_item [OF four_chapters_starts, of 3]
    by (simp add: slice_def strip_def str_def isspace_def)
  have r: "CHAPTERS 4 = None"
    by (simp add: CHAPTERS_def)
  have d4: "dec 4 = str ''4''"
    by (simp add: dec_def str_def eval_nat_numeral)
  have n: "tex_name 4 = str ''chapter4.tex''" "bak_name 4 = str ''chapter4.tex.bak''"
    by (simp_all add: tex_name_def bak_name_def d4) (simp_all add: str_def)
  show ?thesis
    using unregistered_chapter_skipped [OF t m r, of "\<lambda>n. str ''2026-01-01 00:00:00''"
        "\<lparr>files = Map.empty, console = []\<rparr>"
        "\<lparr>files = [str ''chapter4.tex'' \<mapsto> str ''kept''], console = []\<rparr>"] t m r
    by (simp add: n d4) (auto simp: str_def)
qed

lemma quote_step_hi:
  "subst (seq [Lit [DQ], Grp 1 (Star (\<lambda>c. c \<noteq> DQ)), Lit [DQ]]) (str ''``'' @ BS # str ''1'' @ [SQ, SQ])
     ([DQ] @ str ''hi'' @ [DQ]) = str ''``'' @ BS # str ''1'' @ [SQ, SQ]"
  by (simp add: subst_def ev)

text \<open>
  C2. The replacement template of the quote step is the raw string
  \<^verbatim>\<open>``\\1''\<close>, in which the two backslashes stand for one literal backslash and
  the digit is a plain character: the text between the straight quotes is not put back.
  The two-letter span ``hi'' in straight double quotes comes out as the curly quotes
  around a backslash and the digit 1.
\<close>

theorem quoted_span_content_lost:
  "fix_special_characters U ([DQ] @ str ''hi'' @ [DQ]) = Some (str ''``'' @ [BS] @ str ''1'' @ [SQ, SQ])"
proof -
  have a: "subst r R ([DQ] @ str ''hi'' @ [DQ]) = [DQ] @ str ''hi'' @ [DQ]"
    if "needs (\<lambda>c. trigger c \<and> c \<noteq> DQ) r" for r R
    by (rule needs_subst [OF that]) (simp add: str_def trigger_def)
  have b: "subst r R (str ''``'' @ BS # str ''1'' @ [SQ, SQ]) = str ''``'' @ BS # str ''1'' @ [SQ, SQ]"
    if "needs (\<lambda>c. trigger c \<and> c \<noteq> DQ) r" for r R
    by (rule needs_subst [OF that]) (simp add: str_def trigger_def)
  have n: "needs (\<lambda>c. trigger c \<and> c \<noteq> DQ) (seq [Lit (BS # str ''textasciitilde''), Star isspace])"
    "needs (\<lambda>c. trigger c \<and> c \<noteq> DQ) (seq [Lit (str ''~''), Ahead (u_digit U)])"
    "needs (\<lambda>c. trigger c \<and> c \<noteq> DQ) (Lit [176])"
    "needs (\<lambda>c. trigger c \<and> c \<noteq> DQ) (seq [WordB (u_word U), Lit (str ''CO2''), WordB (u_word U)])"
    "needs (\<lambda>c. trigger c \<and> c \<noteq> DQ) (seq [WordB (u_word U), Lit (str ''CH4''), WordB (u_word U)])"
    "needs (\<lambda>c. trigger c \<and> c \<noteq> DQ) (seq [WordB (u_word U), Lit (str ''H2O''), WordB (u_word U)])"
    "needs (\<lambda>c. trigger c \<and> c \<noteq> DQ) (seq [WordB (u_word U), Lit (str ''O2''), WordB (u_word U)])"
    "needs (\<lambda>c. trigger c \<and> c \<noteq> DQ) (Lit [215])"
    "needs (\<lambda>c. trigger c \<and> c \<noteq> DQ) (Lit [8212])"
    "needs (\<lambda>c. trigger c \<and> c \<noteq> DQ) (Lit [8211])"
    "needs (\<lambda>c. trigger c \<and> c \<noteq> DQ) (seq [NotBehind [BS], Lit (str ''%'')])"
    "needs (\<lambda>c. trigger c \<and> c \<noteq> DQ) (seq [NotBehind [BS], Lit (str ''&''), NotAhead (\<lambda>c. c = BS)])"
    by (simp_all add: seq_def trigger_def str_def)
  show ?thesis
    unfolding fsc_eq
    by (simp only: a [OF n(1)] a [OF n(2)] a [OF n(3)] a [OF n(4)] a [OF n(5)] a [OF n(6)]
        a [OF n(7)] a [OF n(8)] quote_step_hi b [OF n(9)] b [OF n(10)] b [OF n(11)] b [OF n(12)])
      simp
qed

lemma first_match_position:
  assumes "first_match r pre suf = Some m"
  shows "\<exists>k \<le> length suf. remaining m = drop k suf \<and> consumed m = rev (take k suf) @ pre"
proof -
  have "m \<in> set (rx r \<lparr>consumed = pre, remaining = suf, captures = []\<rparr>)"
    using assms by (auto simp: first_match_def split: list.splits)
  from rx_position [OF this] show ?thesis by simp
qed

lemma hit_starts_first:
  assumes "hit_starts k (scan r pre s) = a # rest"
    and "\<And>p t m. first_match r p t = Some m \<Longrightarrow> length (remaining m) < length t"
  shows "\<exists>j m. a = k + j \<and> j < length s \<and>
           first_match r (rev (take j s) @ pre) (drop j s) = Some m \<and>
           rest = hit_starts (k + (length s - length (remaining m)))
                    (scan r (consumed m) (remaining m))"
  using assms(1)
proof (induction s arbitrary: pre k)
  case Nil
  then show ?case
    using assms(2) [of pre "[]"]
    by (cases "first_match r pre []") (auto simp: scan.simps [of r pre "[]"])
next
  case (Cons c cs)
  show ?case
  proof (cases "first_match r pre (c # cs)")
    case None
    then have "hit_starts (Suc k) (scan r (c # pre) cs) = a # rest"
      using Cons.prems by (simp add: scan.simps [of r pre "c # cs"])
    from Cons.IH [OF this] obtain j m where
      "a = Suc k + j" "j < length cs"
      "first_match r (rev (take j cs) @ c # pre) (drop j cs) = Some m"
      "rest = hit_starts (Suc k + (length cs - length (remaining m))) (scan r (consumed m) (remaining m))"
      by blast
    moreover have "length (remaining m) \<le> length cs"
      using first_match_position [OF calculation(3)] by auto
    ultimately show ?thesis
      by (intro exI [of _ "Suc j"] exI [of _ m]) (simp add: Suc_diff_le)
  next
    case (Some m)
    have lt: "length (remaining m) < length (c # cs)"
      by (rule assms(2) [OF Some])
    then have "a = k" "rest = hit_starts (k + (length (c # cs) - length (remaining m)))
                 (scan r (consumed m) (remaining m))"
      using Cons.prems Some by (auto simp: scan.simps [of r pre "c # cs"])
    then show ?thesis
      using Some by (intro exI [of _ 0] exI [of _ m]) simp
  qed
qed

lemma rx_Cat_iff:
  "m \<in> set (rx (Cat a b) m0) \<longleftrightarrow> (\<exists>m1 \<in> set (rx a m0). m \<in> set (rx b m1))"
  by auto

lemma chapter_match:
  assumes "first_match chapter_pattern pre suf = Some m"
  shows "take 9 suf = BS # str ''chapter{'' \<and> length (remaining m) + 10 \<le> length suf"
proof -
  have mem: "m \<in> set (rx chapter_pattern \<lparr>consumed = pre, remaining = suf, captures = []\<rparr>)"
    using assms by (auto simp: first_match_def split: list.splits)
  let ?m0 = "\<lparr>consumed = pre, remaining = suf, captures = []\<rparr>"
  have "\<exists>m1 \<in> set (rx (Lit (BS # str ''chapter{'')) ?m0).
          \<exists>m2 \<in> set (rx (Grp 1 (Star (\<lambda>c. c \<noteq> 125))) m1).
          \<exists>m3 \<in> set (rx (Lit (str ''}'')) m2). m \<in> set (rx Eps m3)"
    using mem by (simp only: chapter_pattern_def seq_def foldr.simps comp_def rx_Cat_iff id_apply)
  then obtain m1 m2 m3 where
    m1: "m1 \<in> set (rx (Lit (BS # str ''chapter{'')) ?m0)" and
    m2: "m2 \<in> set (rx (Grp 1 (Star (\<lambda>c. c \<noteq> 125))) m1)" and
    m3': "m3 \<in> set (rx (Lit (str ''}'')) m2)" "m \<in> set (rx Eps m3)"
    by blast
  have m3: "m \<in> set (rx (Lit (str ''}'')) m2)"
    using m3' by simp
  have t: "take 9 suf = BS # str ''chapter{''" and r1: "remaining m1 = drop 9 suf"
    using m1 by (auto simp: str_def eval_nat_numeral split: if_splits)
  have l9: "9 \<le> length suf"
    using arg_cong [OF t, of length] by (simp add: str_def)
  obtain k where k: "k \<le> length (remaining m1)" "remaining m2 = drop k (remaining m1)"
    using rx_position [OF m2] by blast
  have "take 1 (remaining m2) = str ''}''" and "remaining m = drop 1 (remaining m2)"
    using m3 by (auto simp: str_def split: if_splits)
  then have "1 \<le> length (remaining m2)" "length (remaining m) = length (remaining m2) - 1"
    by (cases "remaining m2"; simp add: str_def)+
  then have "length (remaining m) + 10 \<le> length suf"
    using k r1 l9 by simp
  then show ?thesis using t by simp
qed

lemma chapter_nonempty:
  "first_match chapter_pattern p t = Some m \<Longrightarrow> length (remaining m) < length t"
  using chapter_match [of p t m] by simp

lemma strip_keeps_prefix:
  assumes "p \<noteq> []" "\<not> isspace (hd p)" "\<not> isspace (last p)"
  shows "\<exists>q' ws. strip (p @ q) = p @ q' \<and> p @ q = strip (p @ q) @ ws \<and> list_all isspace ws"
proof -
  have d: "dropWhile isspace (p @ q) = p @ q"
    using assms(1,2) by (cases p) auto
  have lp: "\<not> (\<forall>x \<in> set (rev p). isspace x)"
    using assms(1,3) last_in_set by fastforce
  have hp: "dropWhile isspace (rev p) = rev p"
    using assms(1,3) by (cases p rule: rev_cases) auto
  have st: "strip (p @ q) = rev (dropWhile isspace (rev q @ rev p))"
    by (simp add: strip_def d)
  show ?thesis
  proof (cases "\<forall>x \<in> set q. isspace x")
    case True
    then have "dropWhile isspace (rev q @ rev p) = rev p"
      using hp by (simp add: dropWhile_append)
    then have "strip (p @ q) = p"
      by (simp add: st)
    then show ?thesis using True by (auto simp: list_all_iff)
  next
    case False
    then have "dropWhile isspace (rev q @ rev p) = dropWhile isspace (rev q) @ rev p"
      by (auto simp: dropWhile_append)
    then have "strip (p @ q) = p @ rev (dropWhile isspace (rev q))"
      by (simp add: st)
    moreover have "q = rev (dropWhile isspace (rev q)) @ rev (takeWhile isspace (rev q))"
      by (metis rev_append rev_rev_ident takeWhile_dropWhile_id)
    moreover have "list_all isspace (rev (takeWhile isspace (rev q)))"
      by (simp add: list_all_iff) (meson set_takeWhileD)
    ultimately show ?thesis
      by (metis append_assoc)
  qed
qed

lemma marker_slice:
  assumes "take 9 (drop a buf) = BS # str ''chapter{''" "a + 10 \<le> e"
  shows "\<exists>q ws. strip (slice buf a e) = BS # str ''chapter{'' @ q \<and>
           slice buf a e = strip (slice buf a e) @ ws \<and> list_all isspace ws"
proof -
  have "take (9 + (e - a - 9)) (drop a buf) = take 9 (drop a buf) @ take (e - a - 9) (drop 9 (drop a buf))"
    by (rule take_add)
  moreover have "9 + (e - a - 9) = e - a" using assms(2) by simp
  ultimately have sl: "slice buf a e = (BS # str ''chapter{'') @ take (e - a - 9) (drop 9 (drop a buf))"
    using assms(1) by (simp add: slice_def)
  have "\<exists>q' ws. strip ((BS # str ''chapter{'') @ take (e - a - 9) (drop 9 (drop a buf)))
            = (BS # str ''chapter{'') @ q'
          \<and> (BS # str ''chapter{'') @ take (e - a - 9) (drop 9 (drop a buf))
            = strip ((BS # str ''chapter{'') @ take (e - a - 9) (drop 9 (drop a buf))) @ ws
          \<and> list_all isspace ws"
    by (rule strip_keeps_prefix) (simp_all add: str_def isspace_def)
  then show ?thesis
    unfolding sl by simp
qed

text \<open>
  C5 (as the code has it). A text with exactly two matches of the chapter pattern, at
  the offsets \<open>a\<close> and \<open>b\<close>, is split into exactly two entries with the indices 1 and 2:
  the text from \<open>a\<close> up to \<open>b\<close> and the text from \<open>b\<close> to the end, each with the white
  space at its two ends removed. Each entry begins with its marker, and differs from
  its part of the text only by white space dropped at the end; nothing before \<open>a\<close>
  is in either entry.
\<close>

theorem two_markers_two_chapters:
  assumes "finditer_starts chapter_pattern buf = [a, b]"
  shows "snd (split_into_chapters buf) =
           [(1, strip (slice buf a b)), (2, strip (slice buf b (length buf)))] \<and>
         a + 10 \<le> b \<and> b + 10 \<le> length buf \<and>
         (\<exists>q ws. strip (slice buf a b) = BS # str ''chapter{'' @ q \<and>
            slice buf a b = strip (slice buf a b) @ ws \<and> list_all isspace ws) \<and>
         (\<exists>q ws. strip (slice buf b (length buf)) = BS # str ''chapter{'' @ q \<and>
            slice buf b (length buf) = strip (slice buf b (length buf)) @ ws \<and> list_all isspace ws)"
proof -
  have chs: "snd (split_into_chapters buf) =
           [(1, strip (slice buf a b)), (2, strip (slice buf b (length buf)))]"
    using split_markers [OF assms] by (simp add: upt_rec [of 0] upt_rec [of 1])
  have hs: "hit_starts 0 (scan chapter_pattern [] buf) = [a, b]"
    using assms by (simp add: finditer_starts_def)
  have "\<exists>j m. a = 0 + j \<and> j < length buf \<and>
           first_match chapter_pattern (rev (take j buf) @ []) (drop j buf) = Some m \<and>
           [b] = hit_starts (0 + (length buf - length (remaining m)))
                    (scan chapter_pattern (consumed m) (remaining m))"
    by (rule hit_starts_first [OF hs]) (rule chapter_nonempty)
  then obtain j m where
    j: "a = j" "j < length buf"
      "first_match chapter_pattern (rev (take j buf)) (drop j buf) = Some m"
      "[b] = hit_starts (length buf - length (remaining m)) (scan chapter_pattern (consumed m) (remaining m))"
    by auto
  have ma: "take 9 (drop a buf) = BS # str ''chapter{''"
    and la: "length (remaining m) + 10 \<le> length (drop a buf)"
    using chapter_match [OF j(3)] j(1) by simp_all
  obtain k where k: "k \<le> length (drop a buf)" "remaining m = drop k (drop a buf)"
    using first_match_position [OF j(3)] j(1) by auto
  have e: "length buf - length (remaining m) = a + k"
    using k j(1,2) by simp
  have k10: "10 \<le> k"
    using la k by simp
  have "\<exists>j2 m2. b = length buf - length (remaining m) + j2 \<and> j2 < length (remaining m) \<and>
           first_match chapter_pattern (rev (take j2 (remaining m)) @ consumed m) (drop j2 (remaining m)) = Some m2 \<and>
           [] = hit_starts (length buf - length (remaining m) + (length (remaining m) - length (remaining m2)))
                    (scan chapter_pattern (consumed m2) (remaining m2))"
    by (rule hit_starts_first [OF j(4) [symmetric]]) (rule chapter_nonempty)
  then obtain j2 m2 where
    j2: "b = length buf - length (remaining m) + j2" "j2 < length (remaining m)"
      "first_match chapter_pattern (rev (take j2 (remaining m)) @ consumed m) (drop j2 (remaining m)) = Some m2"
    by auto
  have bd: "drop j2 (remaining m) = drop b buf"
    using j2(1) e k by (simp add: add.commute add.left_commute)
  have mb: "take 9 (drop b buf) = BS # str ''chapter{''"
    and lb: "length (remaining m2) + 10 \<le> length (drop b buf)"
    using chapter_match [OF j2(3)] bd by simp_all
  have ab: "a + 10 \<le> b"
    using j2(1) e k10 by simp
  have bl: "b + 10 \<le> length buf"
    using lb by simp
  show ?thesis
    using chs ab bl marker_slice [OF ma ab] marker_slice [OF mb bl] by simp
qed

lemma two_chapters_starts:
  "finditer_starts chapter_pattern (BS # str ''chapter{A} '' @ BS # str ''chapter{B}'') = [0, 12]"
  by (simp add: finditer_starts_def chapter_pattern_def ev)

theorem two_markers_two_chapters_witness:
  "finditer_starts chapter_pattern (BS # str ''chapter{A} '' @ BS # str ''chapter{B}'') = [0, 12] \<and>
   snd (split_into_chapters (BS # str ''chapter{A} '' @ BS # str ''chapter{B}'')) =
     [(1, BS # str ''chapter{A}''), (2, BS # str ''chapter{B}'')]"
proof -
  let ?d = "BS # str ''chapter{A} '' @ BS # str ''chapter{B}''"
  have s: "strip (slice ?d 0 12) = BS # str ''chapter{A}''"
    "strip (slice ?d 12 (length ?d)) = BS # str ''chapter{B}''"
    by (simp_all add: slice_def strip_def str_def isspace_def)
  show ?thesis
    using two_markers_two_chapters [OF two_chapters_starts] two_chapters_starts s
    by simp
qed

theorem chapter_content_is_trimmed:
  "finditer_starts chapter_pattern (BS # str ''chapter{A} '' @ BS # str ''chapter{B}'') = [0, 12] \<and>
   map_of (snd (split_into_chapters (BS # str ''chapter{A} '' @ BS # str ''chapter{B}''))) 1
     = Some (BS # str ''chapter{A}'') \<and>
   slice (BS # str ''chapter{A} '' @ BS # str ''chapter{B}'') 0 12 = BS # str ''chapter{A} '' \<and>
   map_of (snd (split_into_chapters (BS # str ''chapter{A} '' @ BS # str ''chapter{B}''))) 1
     \<noteq> Some (slice (BS # str ''chapter{A} '' @ BS # str ''chapter{B}'') 0 12)"
proof -
  let ?d = "BS # str ''chapter{A} '' @ BS # str ''chapter{B}''"
  have s: "strip (slice ?d 0 12) = BS # str ''chapter{A}''"
    "slice ?d 0 12 = BS # str ''chapter{A} ''"
    by (simp_all add: slice_def strip_def str_def isspace_def)
  have "map_of (snd (split_into_chapters ?d)) 1 = Some (strip (slice ?d 0 12))"
    using split_markers [OF two_chapters_starts] by (simp add: upt_rec [of 0] upt_rec [of 1])
  then show ?thesis
    using two_chapters_starts s by (simp add: str_def)
qed

lemma follows_bs_append:
  "follows_bs D (a @ b) \<longleftrightarrow>
     follows_bs D a \<or> follows_bs D b \<or> (a \<noteq> [] \<and> b \<noteq> [] \<and> last a = BS \<and> D (hd b))"
proof (induction D a rule: follows_bs.induct)
  case (1 D c d s)
  then show ?case by auto
next
  case (2 D c)
  show ?case by (cases b) auto
next
  case (3 D)
  show ?case by simp
qed

lemma follows_bs_Cons:
  "follows_bs D (c # s) \<longleftrightarrow> (c = BS \<and> s \<noteq> [] \<and> D (hd s)) \<or> follows_bs D s"
  by (cases s) auto

lemma follows_bs_none: "BS \<notin> set s \<Longrightarrow> \<not> follows_bs D s"
  by (induction s) (auto simp: follows_bs_Cons)

lemma follows_bs_mono: "follows_bs D s \<Longrightarrow> (\<And>d. D d \<Longrightarrow> E d) \<Longrightarrow> follows_bs E s"
  by (induction D s rule: follows_bs.induct) auto

lemma scan_quiet:
  assumes st: "\<And>p t m. first_match r p t = Some m \<Longrightarrow> \<exists>d u. t = BS # d # u \<and> D d"
    and q: "\<not> follows_bs D s"
  shows "scan r p s = map Gap s"
  using q
proof (induction s arbitrary: p)
  case Nil
  have "first_match r p [] = None"
    using st [of p "[]"] by (cases "first_match r p []") auto
  then show ?case by (simp add: scan.simps [of _ _ "[]"])
next
  case (Cons c cs)
  have "first_match r p (c # cs) = None"
  proof (cases "first_match r p (c # cs)")
    case (Some m)
    from st [OF this] Cons.prems show ?thesis by auto
  qed simp
  moreover have "\<not> follows_bs D cs"
    using Cons.prems by (simp add: follows_bs_Cons)
  ultimately show ?case
    using Cons.IH by (simp add: scan.simps [of _ _ "c # cs"])
qed

lemma scan_skip:
  assumes st: "\<And>p t m. first_match r p t = Some m \<Longrightarrow> \<exists>d u. t = BS # d # u \<and> D d"
    and q: "\<not> follows_bs D pre" "rest = [] \<or> \<not> D (hd rest)"
  shows "scan r p (pre @ rest) = map Gap pre @ scan r (rev pre @ p) rest"
  using q(1)
proof (induction pre arbitrary: p)
  case Nil
  show ?case by simp
next
  case (Cons c cs)
  have "first_match r p (c # cs @ rest) = None"
  proof (cases "first_match r p (c # cs @ rest)")
    case (Some m)
    from st [OF this] obtain d u where du: "c = BS" "cs @ rest = d # u" "D d" by auto
    show ?thesis
    proof (cases cs)
      case Nil
      then show ?thesis using du q(2) by auto
    next
      case (Cons e es)
      then show ?thesis using du Cons.prems by auto
    qed
  qed simp
  moreover have "\<not> follows_bs D cs"
    using Cons.prems by (simp add: follows_bs_Cons)
  ultimately show ?case
    using Cons.IH by (simp add: scan.simps [of _ _ "c # cs @ rest"])
qed

lemma first_match_Cat_None:
  "rx a \<lparr>consumed = p, remaining = t, captures = []\<rparr> = [] \<Longrightarrow> first_match (Cat a r) p t = None"
  by (simp add: first_match_def)

lemma starts_LitI:
  assumes "first_match (Cat (LitI (BS # e # w)) r) p t = Some m"
  shows "\<exists>d u. t = BS # d # u \<and> ci_eq e d"
proof -
  have "rx (LitI (BS # e # w)) \<lparr>consumed = p, remaining = t, captures = []\<rparr> \<noteq> []"
    using assms first_match_Cat_None by fastforce
  then have l: "Suc (Suc (length w)) \<le> length t"
    and a: "list_all2 ci_eq (BS # e # w) (take (Suc (Suc (length w))) t)"
    by (simp_all split: if_splits)
  from l obtain a' d u where t: "t = a' # d # u"
    by (cases t; cases "tl t") auto
  from a t have "ci_eq BS a'" "ci_eq e d" by simp_all
  then show ?thesis
    using t by (simp add: ci_eq_def ascii_letter_def ascii_upper_letter_def ascii_lower_letter_def)
qed

lemma starts_Lit:
  assumes "first_match (Cat (Lit (BS # e # w)) r) p t = Some m"
  shows "\<exists>u. t = BS # e # u"
proof -
  have "rx (Lit (BS # e # w)) \<lparr>consumed = p, remaining = t, captures = []\<rparr> \<noteq> []"
    using assms first_match_Cat_None by fastforce
  then have "take (Suc (Suc (length w))) t = BS # e # w"
    by (simp split: if_splits)
  then show ?thesis
    by (cases t; cases "tl t") auto
qed

lemma ci_eq_t: "ci_eq 116 d \<longleftrightarrow> d = 116 \<or> d = 84"
  by (auto simp: ci_eq_def ascii_letter_def ascii_upper_letter_def ascii_lower_letter_def
      ascii_lower_def ascii_upper_def)

lemma starts_bold:
  assumes "first_match (seq (LitI (BS # str ''textbf{'' @ t) # rs)) p s = Some m"
  shows "\<exists>d u. s = BS # d # u \<and> (d = 116 \<or> d = 84)"
  using starts_LitI [of 116 "str ''extbf{'' @ t" "foldr Cat rs Eps" p s m] assms
  by (simp add: seq_def str_def ci_eq_t)

lemma re_sub_gaps:
  "scan r [] s = map Gap s \<Longrightarrow> parse_template (ngroups r) t = Some ps \<Longrightarrow> re_sub r t n s = Some s"
  by (simp add: re_sub_def)

lemma promote_quiet:
  assumes "\<not> follows_bs (\<lambda>d. d = 116 \<or> d = 84) s" "BS \<notin> set cmd" "BS \<notin> set pre" "BS \<notin> set t"
  shows "promote U cmd pre t s = Some s"
proof -
  obtain lab where lab: "slugify U (str '':,'') t = Some lab" "BS \<notin> set lab"
    using slug_char_not_bs by (auto simp: slugify_eq)
  let ?r = "seq [LitI (BS # str ''textbf{'' @ t), Star (\<lambda>c. c \<noteq> 125), LitI (str ''}'')]"
  obtain ps where ps: "parse_template (ngroups ?r) ([BS, BS] @ cmd @ str ''{'' @ t @ str ''}'' @ [NL] @ [BS, BS]
      @ str ''label{'' @ pre @ str '':'' @ lab @ str ''}'') = Some ps"
    using promote_template [OF assms(2,3,4) lab(2)] by blast
  have "scan ?r [] s = map Gap s"
    by (rule scan_quiet [OF _ assms(1)]) (rule starts_bold)
  then show ?thesis
    using re_sub_gaps [OF _ ps] by (simp add: promote_def lab)
qed

lemma split_nl_parts:
  "split_nl s \<noteq> [] \<and> (\<exists>b. s = hd (split_nl s) @ b) \<and> (\<forall>l \<in> set (split_nl s). \<exists>a b. s = a @ l @ b)"
proof (induction s)
  case Nil
  show ?case by simp
next
  case (Cons c cs)
  then obtain l0 ls b0 where sp: "split_nl cs = l0 # ls" and b0: "cs = l0 @ b0"
    by (cases "split_nl cs") auto
  have all: "\<forall>l \<in> set (split_nl cs). \<exists>a b. c # cs = a @ l @ b"
  proof
    fix l assume "l \<in> set (split_nl cs)"
    with Cons obtain a b where "cs = a @ l @ b" by blast
    then have "c # cs = (c # a) @ l @ b" by simp
    then show "\<exists>a b. c # cs = a @ l @ b" by blast
  qed
  show ?case
  proof (cases "c = NL")
    case True
    have "c # cs = [] @ [] @ (c # cs)" by simp
    then have "\<exists>a b. c # cs = a @ [] @ b" by blast
    then show ?thesis using True all by simp
  next
    case False
    have "c # cs = [] @ (c # l0) @ b0" using b0 by simp
    then have "\<exists>a b. c # cs = a @ (c # l0) @ b" by blast
    then show ?thesis using False all sp b0 by auto
  qed
qed

lemma strip_parts: "\<exists>a b. s = a @ strip s @ b"
proof -
  let ?d = "dropWhile isspace s"
  have "rev (takeWhile isspace (rev ?d) @ dropWhile isspace (rev ?d)) = rev (rev ?d)"
    by (simp only: takeWhile_dropWhile_id)
  then have "rev (dropWhile isspace (rev ?d)) @ rev (takeWhile isspace (rev ?d)) = ?d"
    by (simp only: rev_append rev_rev_ident)
  then have "?d = strip s @ rev (takeWhile isspace (rev ?d))"
    by (simp only: strip_def)
  moreover have "s = takeWhile isspace s @ ?d" by simp
  ultimately have "s = takeWhile isspace s @ strip s @ rev (takeWhile isspace (rev ?d))"
    by simp
  then show ?thesis by blast
qed

lemma follows_bs_part: "\<not> follows_bs D (a @ x @ b) \<Longrightarrow> \<not> follows_bs D x"
  by (simp add: follows_bs_append)

lemma heading_line_quiet:
  assumes "\<not> follows_bs (\<lambda>d. d = 116 \<or> d = 84 \<or> d = 104) line"
  shows "heading_line U line = Some [line]"
proof -
  obtain a b where "line = a @ strip line @ b"
    using strip_parts by blast
  then have q: "\<not> follows_bs (\<lambda>d. d = 116 \<or> d = 84 \<or> d = 104) (strip line)"
    using assms follows_bs_part by metis
  have "first_match hyper_pattern [] (strip line) = None"
  proof (cases "first_match hyper_pattern [] (strip line)")
    case (Some m)
    then have "\<exists>u. strip line = BS # 104 # u"
      using starts_Lit [of 104 "str ''ypertarget{''" _ "[]" "strip line" m]
      by (simp add: hyper_pattern_def seq_def str_def)
    then show ?thesis using q by auto
  qed simp
  moreover have "first_match bold_only_pattern [] (strip line) = None"
  proof (cases "first_match bold_only_pattern [] (strip line)")
    case (Some m)
    then have "first_match (Cat (Lit (BS # 116 # str ''extbf{''))
         (foldr Cat [Grp 1 (Plus (\<lambda>c. c \<noteq> 125)), Lit (str ''}''), Eol] Eps)) [] (strip line) = Some m"
      by (simp add: bold_only_pattern_def seq_def str_def first_match_def)
    then have "\<exists>u. strip line = BS # 116 # u"
      by (rule starts_Lit)
    then show ?thesis using q by auto
  qed simp
  ultimately show ?thesis
    by (simp add: heading_line_def)
qed

lemma lines_quiet:
  assumes "\<not> follows_bs (\<lambda>d. d = 116 \<or> d = 84 \<or> d = 104) s"
  shows "map_option_list (heading_line U) (split_nl s) = Some (map (\<lambda>x. [x]) (split_nl s))"
proof (rule map_option_list_id, rule heading_line_quiet)
  fix l assume "l \<in> set (split_nl s)"
  then obtain a b where "s = a @ l @ b"
    using split_nl_parts [of s] by blast
  then show "\<not> follows_bs (\<lambda>d. d = 116 \<or> d = 84 \<or> d = 104) l"
    using assms follows_bs_part by metis
qed

lemma concat_singletons: "concat (map (\<lambda>x. [x]) xs) = xs"
  by (induction xs) auto

lemma headings_tail_quiet:
  assumes "\<not> follows_bs (\<lambda>d. d = 116 \<or> d = 84 \<or> d = 104) s"
  shows "do {
     content \<leftarrow> fold_option (promote U (str ''section'') (str ''sec'')) SECTION_PATTERNS s;
     content \<leftarrow> fold_option (promote U (str ''subsection'') (str ''subsec'')) SUBSECTION_PATTERNS content;
     result \<leftarrow> map_option_list (heading_line U) (split_nl content);
     Some (join_nl (concat result))
   } = Some s"
proof -
  have q: "\<not> follows_bs (\<lambda>d. d = 116 \<or> d = 84) s"
    using assms follows_bs_mono [of "\<lambda>d. d = 116 \<or> d = 84" s "\<lambda>d. d = 116 \<or> d = 84 \<or> d = 104"]
    by blast
  have s2: "fold_option (promote U (str ''section'') (str ''sec'')) SECTION_PATTERNS s = Some s"
    by (rule fold_option_id, rule promote_quiet [OF q])
      (auto simp: str_def dest: SECTION_PATTERNS_no_bs)
  have s3: "fold_option (promote U (str ''subsection'') (str ''subsec'')) SUBSECTION_PATTERNS s = Some s"
    by (rule fold_option_id, rule promote_quiet [OF q])
      (auto simp: str_def dest: SUBSECTION_PATTERNS_no_bs)
  show ?thesis
    by (simp only: s2 s3 lines_quiet [OF assms] concat_singletons bind.bind_lunit join_split_nl)
qed

lemma fix_headings_free:
  assumes s1: "insert_chapter1 s = Some s'" and hf: "heading_free s'"
  shows "fix_headings U s = Some s'"
proof -
  have n: "\<forall>c \<in> set s'. \<not> (c = 50 \<or> c = 51)"
    using hf by (auto simp: heading_free_def)
  have c2: "re_sub (seq [LitI (str ''Chapter''), Plus isspace, Lit (str ''2''), Star isspace,
                              Plus (\<lambda>c. c = NL), Star isspace, LitI (str ''Literature''),
                              Plus isspace, LitI (str ''review'')])
                  ([BS, BS] @ str ''chapter{Literature Review}'' @ [BS, 110] @
                   [BS, BS] @ str ''label{ch:literature-review}'') 0 s' = Some s'"
    by (rule needs_re_sub [OF _ n]) (simp_all add: seq_def str_def tmpl)
  have c3: "re_sub (seq [LitI (BS # str ''textbf{Chapter''), Plus isspace, Lit (str ''3}''),
                              Star isspace, Plus (\<lambda>c. c = NL), Star isspace,
                              LitI (BS # str ''textbf{3.''), Star isspace, LitI (str ''Research''),
                              Plus isspace, LitI (str ''Methodology}'')])
                  ([BS, BS] @ str ''chapter{Research Methodology}'' @ [BS, 110] @
                   [BS, BS] @ str ''label{ch:methodology}'') 0 s' = Some s'"
    by (rule needs_re_sub [OF _ n]) (simp_all add: seq_def str_def tmpl)
  have c4: "re_sub (seq [LitI (str ''Chapter''), Plus isspace, Lit (str ''3''), Star isspace,
                              Plus (\<lambda>c. c = NL), LazyStar (\<lambda>c. c \<noteq> NL), LitI (str ''Research''),
                              Plus isspace, LitI (str ''Methodology'')])
                  ([BS, BS] @ str ''chapter{Research Methodology}'' @ [BS, 110] @
                   [BS, BS] @ str ''label{ch:methodology}'') 0 s' = Some s'"
    by (rule needs_re_sub [OF _ n]) (simp_all add: seq_def str_def tmpl)
  have q: "\<not> follows_bs (\<lambda>d. d = 116 \<or> d = 84 \<or> d = 104) s'"
    using hf by (simp add: heading_free_def)
  show ?thesis
    unfolding fix_headings_def
    by (simp only: s1 c2 c3 c4 headings_tail_quiet [OF q] bind.bind_lunit)
qed

lemma first_match_Lit:
  "first_match (Lit s) p t =
     (if take (length s) t = s
      then Some \<lparr>consumed = rev s @ p, remaining = drop (length s) t, captures = []\<rparr>
      else None)"
  by (simp add: first_match_def advance_def)

lemma unscan: "rebuild ps (Some 0) (scan r p s) = s"
proof (induction "length s" arbitrary: p s rule: less_induct)
  case less
  show ?case
  proof (cases "first_match r p s")
    case None
    then show ?thesis
      using less by (subst scan.simps) (cases s; simp)
  next
    case (Some m)
    obtain k where k: "k \<le> length s" "remaining m = drop k s"
      using first_match_position [OF Some] by auto
    show ?thesis
    proof (cases "length (remaining m) < length s")
      case True
      have "length s - length (remaining m) = k" using k by simp
      then have "take (length s - length (remaining m)) s @ remaining m = s"
        using k by simp
      then show ?thesis
        using less [OF True] Some True by (subst scan.simps) simp
    next
      case False
      then show ?thesis
        using less Some by (subst scan.simps) (cases s; simp)
    qed
  qed
qed

lemma rebuild_gaps_append: "rebuild ps lim (map Gap pre @ cs) = pre @ rebuild ps lim cs"
  by (induction pre) auto

lemma contains_mid: "sub \<noteq> [] \<Longrightarrow> contains (pre @ sub @ post) sub"
proof (induction pre)
  case Nil
  then show ?case by (cases sub) simp_all
next
  case (Cons a pre)
  then show ?case by simp
qed

lemma scan_first_Lit:
  assumes "mk \<noteq> []" "\<not> contains (pre @ butlast mk) mk"
  shows "scan (Lit mk) p (pre @ mk @ post) =
           map Gap pre @ Hit mk [] # scan (Lit mk) (rev mk @ rev pre @ p) post"
  using assms(2)
proof (induction pre arbitrary: p)
  case Nil
  show ?case
    using assms(1) by (simp add: scan.simps [of _ p "mk @ post"] first_match_Lit)
next
  case (Cons c cs)
  have n: "take (length mk) (c # cs @ butlast mk) \<noteq> mk" and r: "\<not> contains (cs @ butlast mk) mk"
    using Cons.prems by simp_all
  have "(c # cs @ butlast mk) @ (last mk # post) = c # cs @ (butlast mk @ [last mk]) @ post"
    by simp
  also have "\<dots> = c # cs @ mk @ post"
    using append_butlast_last_id [OF assms(1)] by (rule arg_cong [where f = "\<lambda>x. c # cs @ x @ post"])
  finally have "c # cs @ mk @ post = (c # cs @ butlast mk) @ (last mk # post)"
    by (rule sym)
  moreover have "length mk \<le> length (c # cs @ butlast mk)"
    by simp
  ultimately have "take (length mk) (c # cs @ mk @ post) = take (length mk) (c # cs @ butlast mk)"
    by (metis take_all_iff take_append append_Nil2 take_0 diff_is_0_eq)
  then have "first_match (Lit mk) p (c # cs @ mk @ post) = None"
    using n by (simp add: first_match_Lit)
  then show ?case
    using Cons.IH [OF r] by (simp add: scan.simps [of _ p "c # cs @ mk @ post"])
qed

lemma chapter1_template:
  "parse_template 0
     ([BS, BS] @ str ''chapter{Introduction}'' @ [BS, 110] @
      [BS, BS] @ str ''label{ch:introduction}'' @ [BS, 110, BS, 110] @
      [BS, BS] @ str ''section{Background and Significance}'' @ [BS, 110] @
      [BS, BS] @ str ''label{sec:background-and-significance}'') =
   Some (map PLit (BS # str ''chapter{Introduction}'' @ NL # BS # str ''label{ch:introduction}'' @
           NL # NL # BS # str ''section{Background and Significance}'' @ NL #
           BS # str ''label{sec:background-and-significance}''))"
  by (simp add: str_def tmpl)

lemma insert_chapter1_first:
  assumes "\<not> contains (pre @ str ''Background and Significanc'') (str ''Background and Significance'')"
    and "\<not> contains (pre @ str ''Background and Significance'' @ post) (BS # str ''chapter{Introduction}'')"
  shows "insert_chapter1 (pre @ str ''Background and Significance'' @ post) =
           Some (pre @ BS # str ''chapter{Introduction}'' @ NL # BS # str ''label{ch:introduction}'' @
             NL # NL # BS # str ''section{Background and Significance}'' @ NL #
             BS # str ''label{sec:background-and-significance}'' @ post)"
proof -
  let ?mk = "str ''Background and Significance''"
  have b: "butlast ?mk = str ''Background and Significanc''"
    by (simp add: str_def)
  have ne: "?mk \<noteq> []" by (simp add: str_def)
  have c: "contains (pre @ ?mk @ post) ?mk"
    by (rule contains_mid [OF ne])
  have sc: "scan (Lit ?mk) [] (pre @ ?mk @ post) =
      map Gap pre @ Hit ?mk [] # scan (Lit ?mk) (rev ?mk @ rev pre @ []) post"
    by (rule scan_first_Lit [OF ne]) (simp only: b assms(1) not_False_eq_True)
  have "re_sub (Lit ?mk)
             ([BS, BS] @ str ''chapter{Introduction}'' @ [BS, 110] @
              [BS, BS] @ str ''label{ch:introduction}'' @ [BS, 110, BS, 110] @
              [BS, BS] @ str ''section{Background and Significance}'' @ [BS, 110] @
              [BS, BS] @ str ''label{sec:background-and-significance}'')
             1 (pre @ ?mk @ post) =
        Some (pre @ (BS # str ''chapter{Introduction}'' @ NL # BS # str ''label{ch:introduction}'' @
             NL # NL # BS # str ''section{Background and Significance}'' @ NL #
             BS # str ''label{sec:background-and-significance}'') @ post)"
    unfolding re_sub_def ngroups.simps chapter1_template sc
    by (simp add: unscan rebuild_gaps_append)
  then show ?thesis
    using c assms(2) by (simp add: insert_chapter1_def)
qed


lemma heading_free_inserted:
  "heading_free (str ''A '' @ BS # str ''chapter{Introduction}'' @ NL # BS # str ''label{ch:introduction}'' @
             NL # NL # BS # str ''section{Background and Significance}'' @ NL #
             BS # str ''label{sec:background-and-significance}'' @ str '' B Background and Significance'')"
  by (simp add: heading_free_def str_def)


lemma heading_free_after_A:
  "heading_free (BS # str ''chapter{A} '' @ BS # str ''chapter{Introduction}'' @ NL # BS # str ''label{ch:introduction}'' @
             NL # NL # BS # str ''section{Background and Significance}'' @ NL #
             BS # str ''label{sec:background-and-significance}'' @ [])"
  by (simp add: heading_free_def str_def)


lemma ci_eq_plain: "\<not> ascii_letter t \<Longrightarrow> t < 128 \<Longrightarrow> ci_eq p t \<longleftrightarrow> p = t"
  by (auto simp: ci_eq_def ascii_letter_def ascii_upper_letter_def ascii_lower_letter_def
      ascii_lower_def ascii_upper_def)

lemma ci_eq_bs [simp]: "ci_eq p BS \<longleftrightarrow> p = BS"
  by (rule ci_eq_plain) (simp_all add: ascii_letter_def ascii_upper_letter_def ascii_lower_letter_def)

lemma ci_eq_brace [simp]: "ci_eq p 125 \<longleftrightarrow> p = 125"
  by (rule ci_eq_plain) (simp_all add: ascii_letter_def ascii_upper_letter_def ascii_lower_letter_def)

lemma ci_eq_of_bs [simp]: "ci_eq BS c \<longleftrightarrow> c = BS"
  by (simp add: ci_eq_def ascii_letter_def ascii_upper_letter_def ascii_lower_letter_def)

lemma ci_eq_of_brace [simp]: "ci_eq 125 c \<longleftrightarrow> c = 125"
  by (simp add: ci_eq_def ascii_letter_def ascii_upper_letter_def ascii_lower_letter_def)

lemma starts_ci_Nil [simp]: "starts_ci [] s" "starts_ci (a # w) [] = False"
  by (simp_all add: starts_ci_def)

lemma starts_ci_Cons [simp]: "starts_ci (a # w) (c # s) \<longleftrightarrow> ci_eq a c \<and> starts_ci w s"
  by (auto simp: starts_ci_def)

lemma starts_ci_append: "starts_ci w u \<Longrightarrow> starts_ci w (u @ v)"
proof (induction w arbitrary: u)
  case Nil
  show ?case by simp
next
  case (Cons a w)
  then show ?case by (cases u) auto
qed

lemma starts_ci_length: "starts_ci w s \<Longrightarrow> length w \<le> length s"
  by (simp add: starts_ci_def)

lemma starts_ci_stop:
  assumes "starts_ci w (u @ z # rest)" "z \<notin> set w" "\<And>p. ci_eq p z \<Longrightarrow> p = z"
  shows "starts_ci w u"
  using assms(1,2)
proof (induction w arbitrary: u)
  case Nil
  show ?case by simp
next
  case (Cons a w)
  show ?case
  proof (cases u)
    case Nil
    then show ?thesis using Cons.prems assms(3) [of a] by auto
  next
    case (Cons c u')
    then show ?thesis using Cons.prems Cons.IH [of u'] by auto
  qed
qed

lemma starts_ci_no_straddle:
  assumes "starts_ci (BS # w) (u @ BS # rest)" "BS \<notin> set w" "u \<noteq> []"
  shows "starts_ci (BS # w) u"
proof -
  obtain c u' where u: "u = c # u'" using assms(3) by (cases u) auto
  have s: "starts_ci w (u' @ BS # rest)" and c: "c = BS"
    using assms(1) u by simp_all
  have "starts_ci w u'"
    by (rule starts_ci_stop [OF s assms(2)]) simp
  then show ?thesis
    using u c by simp
qed

lemma starts_ci_no_brace:
  "starts_ci w s \<Longrightarrow> 125 \<notin> set w \<Longrightarrow> 125 \<notin> set (take (length w) s)"
proof (induction w arbitrary: s)
  case Nil
  show ?case by simp
next
  case (Cons a w)
  then show ?case by (cases s) auto
qed

lemma starts_ci_brace_behind:
  assumes "starts_ci w s" "125 \<notin> set w" "125 \<in> set s"
  shows "125 \<in> set (drop (length w) s)"
proof -
  have "set s = set (take (length w) s) \<union> set (drop (length w) s)"
    by (metis append_take_drop_id set_append)
  then show ?thesis
    using assms starts_ci_no_brace by blast
qed

lemma unclosed_iff:
  assumes "w \<noteq> []"
  shows "unclosed w s \<longleftrightarrow> (\<exists>x u. s = x @ u \<and> starts_ci w u \<and> 125 \<notin> set u)"
proof (induction s)
  case Nil
  show ?case using assms by (cases w) auto
next
  case (Cons c s)
  show ?case
  proof
    assume "unclosed w (c # s)"
    then consider "starts_ci w (c # s)" "125 \<notin> set (c # s)" | "unclosed w s"
      by auto
    then show "\<exists>x u. c # s = x @ u \<and> starts_ci w u \<and> 125 \<notin> set u"
    proof cases
      case 1
      then have "c # s = [] @ (c # s) \<and> starts_ci w (c # s) \<and> 125 \<notin> set (c # s)" by simp
      then show ?thesis by blast
    next
      case 2
      then obtain x u where "s = x @ u" "starts_ci w u" "125 \<notin> set u"
        using Cons by blast
      then have "c # s = (c # x) @ u \<and> starts_ci w u \<and> 125 \<notin> set u" by simp
      then show ?thesis by blast
    qed
  next
    assume "\<exists>x u. c # s = x @ u \<and> starts_ci w u \<and> 125 \<notin> set u"
    then obtain x u where xu: "c # s = x @ u" "starts_ci w u" "125 \<notin> set u" by blast
    show "unclosed w (c # s)"
    proof (cases x)
      case Nil
      then show ?thesis using xu by auto
    next
      case (Cons d x')
      then have "s = x' @ u" using xu by simp
      then have "unclosed w s" using xu Cons.IH by blast
      then show ?thesis by simp
    qed
  qed
qed

lemma carried_unclosed:
  assumes "carried s s'" "\<not> unclosed w s" "w \<noteq> []"
  shows "\<not> unclosed w s'"
proof
  assume "unclosed w s'"
  then obtain x u where xu: "s' = x @ u" "starts_ci w u" "125 \<notin> set u"
    unfolding unclosed_iff [OF assms(3)] by blast
  then obtain y v where yv: "s = y @ u @ v" "125 \<notin> set v"
    using assms(1) unfolding carried_def by blast
  have "starts_ci w (u @ v)" "125 \<notin> set (u @ v)"
    using xu yv starts_ci_append by auto
  then have "unclosed w s"
    unfolding unclosed_iff [OF assms(3)] using yv(1) by blast
  then show False using assms(2) by simp
qed

lemma carried_Nil: "carried [] []"
  by (simp add: carried_def)

lemma carried_swallow:
  assumes "125 \<notin> set u"
  shows "carried u []"
proof -
  have "u = [] @ u \<and> 125 \<notin> set u" using assms by simp
  then have "\<exists>y v. u = y @ v \<and> 125 \<notin> set v" by blast
  then show ?thesis
    using assms by (simp add: carried_def)
qed

lemma carried_Cons:
  assumes "carried cs cs'"
  shows "carried (c # cs) (c # cs')"
  unfolding carried_def
proof (intro conjI impI allI)
  assume "125 \<notin> set (c # cs')"
  then obtain v where "cs = cs' @ v" "125 \<notin> set v"
    using assms unfolding carried_def by auto
  then show "\<exists>v. c # cs = (c # cs') @ v \<and> 125 \<notin> set v" by simp
next
  fix x u assume xu: "c # cs' = x @ u \<and> 125 \<notin> set u"
  show "\<exists>y v. c # cs = y @ u @ v \<and> 125 \<notin> set v"
  proof (cases x)
    case Nil
    then have u: "u = c # cs'" using xu by simp
    then obtain v where v: "cs = cs' @ v" "125 \<notin> set v"
      using assms xu unfolding carried_def by auto
    then have "c # cs = [] @ u @ v" using u by simp
    then show ?thesis using v(2) by blast
  next
    case (Cons d x')
    then have "cs' = x' @ u" using xu by simp
    then obtain y v where "cs = y @ u @ v" "125 \<notin> set v"
      using assms xu unfolding carried_def by blast
    then have "c # cs = (c # y) @ u @ v \<and> 125 \<notin> set v" by simp
    then show ?thesis by blast
  qed
qed

lemma carried_Hit:
  assumes "carried cs cs'" "R \<noteq> []" "last R = 125"
  shows "carried (y @ cs) (R @ cs')"
  unfolding carried_def
proof (intro conjI impI allI)
  assume "125 \<notin> set (R @ cs')"
  then show "\<exists>v. y @ cs = (R @ cs') @ v \<and> 125 \<notin> set v"
    using assms(2,3) last_in_set by fastforce
next
  fix x u assume xu: "R @ cs' = x @ u \<and> 125 \<notin> set u"
  have "\<exists>x'. cs' = x' @ u"
  proof (cases "length x < length R")
    case True
    from xu have "R @ cs' = x @ u" by simp
    then obtain z where "R = x @ z" "z \<noteq> []" "u = z @ cs'"
      using True by (auto simp: append_eq_append_conv2)
    then have "last R \<in> set u"
      by (metis last_appendR last_in_set set_append UnI1)
    then show ?thesis using xu assms(3) by simp
  next
    case False
    from xu have "R @ cs' = x @ u" by simp
    then show ?thesis
      using False by (auto simp: append_eq_append_conv2)
  qed
  then obtain x' where "cs' = x' @ u" by blast
  then obtain z v where "cs = z @ u @ v" "125 \<notin> set v"
    using assms(1) xu unfolding carried_def by blast
  then have "y @ cs = (y @ z) @ u @ v \<and> 125 \<notin> set v" by simp
  then show "\<exists>y' v. y @ cs = y' @ u @ v \<and> 125 \<notin> set v" by blast
qed

lemma concat_last_only:
  "(\<And>k. k < n \<Longrightarrow> f k = []) \<Longrightarrow> concat (map f (rev [0..<Suc n])) = f n"
  by (induction n) (simp_all add: less_Suc_eq)

lemma rx_brace:
  "rx (Cat (LitI [125]) Eps) m =
     (if next_is (\<lambda>c. c = 125) (remaining m) then [advance 1 m] else [])"
  by (cases "remaining m") (auto simp: next_is_def)

lemma rx_to_brace:
  assumes "125 \<in> set (remaining m)"
  shows "rx (Cat (Star (\<lambda>c. c \<noteq> 125)) (Cat (LitI [125]) Eps)) m =
           [advance 1 (advance (length (takeWhile (\<lambda>c. c \<noteq> 125) (remaining m))) m)]"
proof -
  let ?P = "\<lambda>c::nat. c \<noteq> 125"
  let ?s = "remaining m"
  let ?n = "length (takeWhile ?P ?s)"
  let ?f = "\<lambda>k. rx (Cat (LitI [125]) Eps) (advance k m)"
  have low: "?f k = []" if "k < ?n" for k
  proof -
    have "k < length ?s" using that length_takeWhile_le [of ?P ?s] by simp
    then have d: "drop k ?s = ?s ! k # drop (Suc k) ?s"
      by (simp add: Cons_nth_drop_Suc)
    have e: "?s ! k = takeWhile ?P ?s ! k"
      using that by (simp add: takeWhile_nth)
    have "takeWhile ?P ?s ! k \<in> set (takeWhile ?P ?s)"
      using that by (rule nth_mem)
    then have "?P (takeWhile ?P ?s ! k)"
      using set_takeWhileD [of "takeWhile ?P ?s ! k" ?P ?s] by blast
    then have "?P (?s ! k)"
      using e by simp
    then show ?thesis
      unfolding rx_brace using d by (simp add: next_is_def)
  qed
  have dw: "dropWhile ?P ?s \<noteq> []"
    using assms by (simp add: dropWhile_eq_Nil_conv) 
  then have "hd (dropWhile ?P ?s) = 125"
    using hd_dropWhile [of ?P ?s] by auto
  then have "next_is (\<lambda>c. c = 125) (drop ?n ?s)"
    using dw by (cases "dropWhile ?P ?s") (simp_all add: next_is_def dropWhile_eq_drop [symmetric])
  then have top: "?f ?n = [advance 1 (advance ?n m)]"
    unfolding rx_brace by simp
  have "rx (Cat (Star ?P) (Cat (LitI [125]) Eps)) m = concat (map ?f (rev [0..<Suc ?n]))"
    by (simp only: rx.simps map_map comp_def)
  then show ?thesis
    using concat_last_only [of ?n ?f] low top by simp
qed

lemma first_match_bold_None:
  "\<not> starts_ci w s \<Longrightarrow>
   first_match (seq [LitI w, Star (\<lambda>c. c \<noteq> 125), LitI (str ''}'')]) p s = None"
  unfolding seq_def foldr.simps comp_def id_apply
  by (rule first_match_Cat_None) (simp add: starts_ci_def)

lemma first_match_bold_Some:
  assumes "starts_ci w s" "125 \<in> set (drop (length w) s)"
  shows "\<exists>m. first_match (seq [LitI w, Star (\<lambda>c. c \<noteq> 125), LitI (str ''}'')]) p s = Some m \<and>
           remaining m = tl (dropWhile (\<lambda>c. c \<noteq> 125) (drop (length w) s)) \<and> captures m = []"
proof -
  let ?m0 = "\<lparr>consumed = p, remaining = s, captures = []\<rparr>"
  let ?m1 = "advance (length w) ?m0"
  have a: "rx (LitI w) ?m0 = [?m1]"
    using assms(1) by (simp add: starts_ci_def)
  have b: "125 \<in> set (remaining ?m1)"
    using assms(2) by simp
  have "rx (seq [LitI w, Star (\<lambda>c. c \<noteq> 125), LitI (str ''}'')]) ?m0 =
          rx (Cat (Star (\<lambda>c. c \<noteq> 125)) (Cat (LitI [125]) Eps)) ?m1"
    unfolding seq_def foldr.simps comp_def id_apply rx.simps(16) a by (simp add: str_def)
  then have "rx (seq [LitI w, Star (\<lambda>c. c \<noteq> 125), LitI (str ''}'')]) ?m0 =
          [advance 1 (advance (length (takeWhile (\<lambda>c. c \<noteq> 125) (remaining ?m1))) ?m1)]"
    using rx_to_brace [OF b] by simp
  moreover have "drop 1 (drop (length (takeWhile (\<lambda>c. c \<noteq> 125) (drop (length w) s))) (drop (length w) s))
      = tl (dropWhile (\<lambda>c. c \<noteq> 125) (drop (length w) s))"
    by (simp only: dropWhile_eq_drop [symmetric] drop_Suc drop_0 One_nat_def)
  ultimately show ?thesis
    by (simp add: first_match_def)
qed

lemma scan_gap_run:
  assumes "\<And>i q. i < length M \<Longrightarrow> first_match r q (drop i M @ post) = None"
  shows "scan r p (M @ post) = map Gap M @ scan r (rev M @ p) post"
  using assms
proof (induction M arbitrary: p)
  case Nil
  show ?case by simp
next
  case (Cons c M)
  have "first_match r p (c # M @ post) = None"
    using Cons.prems [of 0 p] by simp
  moreover have "scan r (c # p) (M @ post) = map Gap M @ scan r (rev M @ c # p) post"
  proof (rule Cons.IH)
    fix i q assume "i < length M"
    then show "first_match r q (drop i M @ post) = None"
      using Cons.prems [of "Suc i" q] by simp
  qed
  ultimately show ?case
    by (subst scan.simps) simp
qed

lemma bold_turn:
  fixes w' :: pystr
  assumes w: "BS \<notin> set w'" "125 \<notin> set w'"
    and R: "R \<noteq> []" "last R = 125"
    and M: "M \<noteq> []" "hd M = BS"
    and mid: "\<And>p post. \<exists>post'. rebuild (map PLit R) None
                (scan (seq [LitI (BS # w'), Star (\<lambda>c. c \<noteq> 125), LitI (str ''}'')]) p (M @ post)) = M' @ post'"
    and sw: "\<And>x u p post. pre = x @ u \<Longrightarrow> starts_ci (BS # w') u \<Longrightarrow> 125 \<notin> set u \<Longrightarrow>
               \<exists>post'. rebuild (map PLit R) None
                 (scan (seq [LitI (BS # w'), Star (\<lambda>c. c \<noteq> 125), LitI (str ''}'')]) p (u @ M @ post)) = M' @ post'"
  shows "\<exists>pre' post'. rebuild (map PLit R) None
           (scan (seq [LitI (BS # w'), Star (\<lambda>c. c \<noteq> 125), LitI (str ''}'')]) p (pre @ M @ post))
             = pre' @ M' @ post' \<and> carried pre pre'"
  using sw
proof (induction "length pre" arbitrary: pre p rule: less_induct)
  case less
  let ?w = "BS # w'"
  let ?r = "seq [LitI ?w, Star (\<lambda>c. c \<noteq> 125), LitI (str ''}'')]"
  let ?P = "\<lambda>c::nat. c \<noteq> 125"
  obtain M0 where M0: "M = BS # M0"
    using M by (cases M) auto
  show ?case
  proof (cases pre)
    case Nil
    obtain post' where "rebuild (map PLit R) None (scan ?r p (M @ post)) = M' @ post'"
      using mid by blast
    then have "rebuild (map PLit R) None (scan ?r p (pre @ M @ post)) = [] @ M' @ post' \<and> carried pre []"
      using Nil by (simp add: carried_Nil)
    then show ?thesis by blast
  next
    case (Cons c cs)
    consider (A) "starts_ci ?w pre" "125 \<notin> set pre"
      | (B) "starts_ci ?w pre" "125 \<in> set pre"
      | (C) "\<not> starts_ci ?w pre"
      by blast
    then show ?thesis
    proof cases
      case A
      have "pre = [] @ pre" by simp
      from less.prems [OF this A] obtain post' where
        "rebuild (map PLit R) None (scan ?r p (pre @ M @ post)) = M' @ post'"
        by blast
      then have "rebuild (map PLit R) None (scan ?r p (pre @ M @ post)) = [] @ M' @ post' \<and> carried pre []"
        using carried_swallow [OF A(2)] by simp
      then show ?thesis by blast
    next
      case B
      have wb: "125 \<notin> set ?w" using w by simp
      have len: "length ?w \<le> length pre"
        using B(1) by (rule starts_ci_length)
      have br: "125 \<in> set (drop (length ?w) pre)"
        by (rule starts_ci_brace_behind [OF B(1) wb B(2)])
      have dr: "drop (length ?w) (pre @ M @ post) = drop (length ?w) pre @ M @ post"
        using len by simp
      have sc: "starts_ci ?w (pre @ M @ post)"
        using B(1) by (rule starts_ci_append)
      have br': "125 \<in> set (drop (length ?w) (pre @ M @ post))"
        unfolding dr using br by simp
      obtain m where fm: "first_match ?r p (pre @ M @ post) = Some m"
        and rem: "remaining m = tl (dropWhile ?P (drop (length ?w) (pre @ M @ post)))"
        and cap: "captures m = []"
        using first_match_bold_Some [OF sc br'] by blast
      define cs2 where "cs2 = tl (dropWhile ?P (drop (length ?w) pre))"
      have dw: "dropWhile ?P (drop (length ?w) pre) \<noteq> []"
        using br by (simp add: dropWhile_eq_Nil_conv)
      have "dropWhile ?P (drop (length ?w) pre @ M @ post) = dropWhile ?P (drop (length ?w) pre) @ M @ post"
        using br by (intro dropWhile_append1 [of 125]) simp_all
      then have rem': "remaining m = cs2 @ M @ post"
        unfolding rem dr cs2_def using dw by simp
      have e2: "hd (dropWhile ?P (drop (length ?w) pre)) # cs2 = dropWhile ?P (drop (length ?w) pre)"
        unfolding cs2_def using dw by simp
      define y where "y = take (length ?w) pre @ takeWhile ?P (drop (length ?w) pre)
                    @ [hd (dropWhile ?P (drop (length ?w) pre))]"
      have "y @ cs2 = take (length ?w) pre @ takeWhile ?P (drop (length ?w) pre)
                    @ (hd (dropWhile ?P (drop (length ?w) pre)) # cs2)"
        unfolding y_def by simp
      also have "\<dots> = take (length ?w) pre @ takeWhile ?P (drop (length ?w) pre)
                    @ dropWhile ?P (drop (length ?w) pre)"
        by (simp only: e2)
      also have "\<dots> = pre"
        by simp
      finally have py: "pre = y @ cs2"
        by (rule sym)
      have yne: "0 < length y"
        by (simp add: y_def)
      have "length pre = length y + length cs2"
        by (subst py) simp
      then have ylen: "length cs2 < length pre"
        using yne by simp
      have sw2: "\<exists>post'. rebuild (map PLit R) None (scan ?r q (u @ M @ post2)) = M' @ post'"
        if "cs2 = x @ u" "starts_ci ?w u" "125 \<notin> set u" for x u q post2
      proof -
        have "pre = (y @ x) @ u" using py that(1) by simp
        from less.prems [OF this that(2,3)] show ?thesis .
      qed
      have "\<exists>pre' post'. rebuild (map PLit R) None (scan ?r (consumed m) (cs2 @ M @ post))
                = pre' @ M' @ post' \<and> carried cs2 pre'"
        by (rule less.hyps [OF ylen], rule sw2, assumption+)
      then obtain cs2' post' where ih:
        "rebuild (map PLit R) None (scan ?r (consumed m) (cs2 @ M @ post)) = cs2' @ M' @ post'"
        "carried cs2 cs2'"
        by blast
      have lt: "length (cs2 @ M @ post) < length (pre @ M @ post)"
        using ylen by simp
      have "scan ?r p (pre @ M @ post) =
              Hit (take (length (pre @ M @ post) - length (cs2 @ M @ post)) (pre @ M @ post)) []
                # scan ?r (consumed m) (cs2 @ M @ post)"
        by (subst scan.simps) (simp only: fm option.case rem' lt if_True cap)
      then have "rebuild (map PLit R) None (scan ?r p (pre @ M @ post)) = (R @ cs2') @ M' @ post'"
        using ih(1) by simp
      moreover have "carried pre (R @ cs2')"
        unfolding py by (rule carried_Hit [OF ih(2) R])
      ultimately show ?thesis by blast
    next
      case C
      have "\<not> starts_ci ?w (pre @ M @ post)"
      proof
        assume "starts_ci ?w (pre @ M @ post)"
        then have s: "starts_ci ?w (pre @ BS # (M0 @ post))"
          using M0 by simp
        have "pre \<noteq> []" using Cons by simp
        then have "starts_ci ?w pre"
          by (rule starts_ci_no_straddle [OF s w(1)])
        then show False using C by simp
      qed
      then have fm: "first_match ?r p (pre @ M @ post) = None"
        by (rule first_match_bold_None)
      have sw2: "\<exists>post'. rebuild (map PLit R) None (scan ?r q (u @ M @ post2)) = M' @ post'"
        if "cs = x @ u" "starts_ci ?w u" "125 \<notin> set u" for x u q post2
      proof -
        have "pre = (c # x) @ u" using Cons that(1) by simp
        from less.prems [OF this that(2,3)] show ?thesis .
      qed
      have cl: "length cs < length pre" using Cons by simp
      have "\<exists>pre' post'. rebuild (map PLit R) None (scan ?r (c # p) (cs @ M @ post))
                = pre' @ M' @ post' \<and> carried cs pre'"
        by (rule less.hyps [OF cl], rule sw2, assumption+)
      then obtain cs' post' where ih:
        "rebuild (map PLit R) None (scan ?r (c # p) (cs @ M @ post)) = cs' @ M' @ post'"
        "carried cs cs'"
        by blast
      have "scan ?r p (pre @ M @ post) = Gap c # scan ?r (c # p) (cs @ M @ post)"
        using fm unfolding Cons by (subst scan.simps) simp
      then have "rebuild (map PLit R) None (scan ?r p (pre @ M @ post)) = (c # cs') @ M' @ post'"
        using ih(1) by simp
      moreover have "carried pre (c # cs')"
        unfolding Cons by (rule carried_Cons [OF ih(2)])
      ultimately show ?thesis by blast
    qed
  qed
qed

lemma promote_eq:
  assumes "BS \<notin> set cmd" "BS \<notin> set lp" "BS \<notin> set t"
  shows "\<exists>lab. slugify U (str '':,'') t = Some lab \<and>
           promote U cmd lp t s =
             Some (rebuild (map PLit (BS # cmd @ str ''{'' @ t @ str ''}'' @ NL # BS # str ''label{'' @ lp
                      @ str '':'' @ lab @ str ''}'')) None
                    (scan (seq [LitI (BS # str ''textbf{'' @ t), Star (\<lambda>c. c \<noteq> 125), LitI (str ''}'')]) [] s))"
proof -
  obtain lab where lab: "slugify U (str '':,'') t = Some lab" "BS \<notin> set lab"
    using slug_char_not_bs by (auto simp: slugify_eq)
  have a: "BS \<notin> set (cmd @ str ''{'' @ t @ str ''}'' @ [NL])"
    using assms by (simp add: str_def)
  have b: "BS \<notin> set (str ''label{'' @ lp @ str '':'' @ lab @ str ''}'')"
    using assms lab by (simp add: str_def)
  have "parse_template n ([BS, BS] @ cmd @ str ''{'' @ t @ str ''}'' @ [NL] @ [BS, BS]
      @ str ''label{'' @ lp @ str '':'' @ lab @ str ''}'')
      = Some (map PLit (BS # cmd @ str ''{'' @ t @ str ''}'' @ NL # BS # str ''label{'' @ lp
                      @ str '':'' @ lab @ str ''}''))" for n
    using parse_template_append_plain [OF a, of n "[BS, BS] @ str ''label{'' @ lp @ str '':'' @ lab @ str ''}''"]
      parse_template_plain [OF b, of n]
    by (simp add: parse_template_bs)
  then show ?thesis
    using lab(1) by (simp add: promote_def re_sub_def)
qed

lemma quiet_inside:
  assumes "BS \<notin> set u" "i < length u"
  shows "\<not> starts_ci (BS # w) (drop i u @ post)"
proof -
  have "drop i u = u ! i # drop (Suc i) u"
    using assms(2) by (simp add: Cons_nth_drop_Suc)
  moreover have "u ! i \<noteq> BS"
    using assms nth_mem by metis
  ultimately show ?thesis by simp
qed

lemma mid_gap:
  assumes "\<not> starts_ci (BS # w) (BS # u @ post)" "BS \<notin> set u"
  shows "scan (seq [LitI (BS # w), Star (\<lambda>c. c \<noteq> 125), LitI (str ''}'')]) p (BS # u @ post) =
           map Gap (BS # u) @
           scan (seq [LitI (BS # w), Star (\<lambda>c. c \<noteq> 125), LitI (str ''}'')]) (rev u @ BS # p) post"
proof -
  let ?r = "seq [LitI (BS # w), Star (\<lambda>c. c \<noteq> 125), LitI (str ''}'')]"
  have "first_match ?r p (BS # u @ post) = None"
    using assms(1) by (rule first_match_bold_None)
  then have "scan ?r p (BS # u @ post) = Gap BS # scan ?r (BS # p) (u @ post)"
    by (subst scan.simps) simp
  moreover have "scan ?r (BS # p) (u @ post) = map Gap u @ scan ?r (rev u @ BS # p) post"
    by (rule scan_gap_run, rule first_match_bold_None, rule quiet_inside [OF assms(2)])
  ultimately show ?thesis by simp
qed

lemma other_title_at_colloids:
  assumes "125 \<notin> set t" "8 < length t"
  shows "\<not> starts_ci (BS # str ''textbf{'' @ t) (BS # str ''textbf{Colloids}'' @ post)"
proof
  assume "starts_ci (BS # str ''textbf{'' @ t) (BS # str ''textbf{Colloids}'' @ post)"
  then have "starts_ci t (str ''Colloids'' @ 125 # post)"
    by (simp add: str_def)
  then have "starts_ci t (str ''Colloids'')"
    using assms(1) by (rule starts_ci_stop) simp
  then show False
    using assms(2) starts_ci_length [of t "str ''Colloids''"] by (simp add: str_def)
qed

lemma mid_other_at_colloids:
  assumes "125 \<notin> set t" "8 < length t"
  shows "\<exists>post'. rebuild (map PLit R) None
           (scan (seq [LitI (BS # str ''textbf{'' @ t), Star (\<lambda>c. c \<noteq> 125), LitI (str ''}'')]) p
              ((BS # str ''textbf{Colloids}'') @ post)) = (BS # str ''textbf{Colloids}'') @ post'"
proof -
  have "BS \<notin> set (str ''textbf{Colloids}'')"
    by (simp add: str_def)
  from mid_gap [OF other_title_at_colloids [OF assms] this]
  show ?thesis
    by (simp add: rebuild_gaps_append)
qed

lemma mid_at_section:
  "\<exists>post'. rebuild (map PLit R) None
           (scan (seq [LitI (BS # str ''textbf{'' @ t), Star (\<lambda>c. c \<noteq> 125), LitI (str ''}'')]) p
              ((BS # str ''section{Colloids}'' @ NL # BS # str ''label{sec:colloids}'') @ post))
         = (BS # str ''section{Colloids}'' @ NL # BS # str ''label{sec:colloids}'') @ post'"
proof -
  let ?r = "seq [LitI (BS # str ''textbf{'' @ t), Star (\<lambda>c. c \<noteq> 125), LitI (str ''}'')]"
  have t: "ci_eq 116 c \<longleftrightarrow> c = 116 \<or> c = 84" for c
    by (rule ci_eq_t)
  have a: "scan ?r q (BS # (str ''section{Colloids}'' @ [NL]) @ (BS # str ''label{sec:colloids}'' @ post)) =
      map Gap (BS # (str ''section{Colloids}'' @ [NL])) @
        scan ?r (rev (str ''section{Colloids}'' @ [NL]) @ BS # q) (BS # str ''label{sec:colloids}'' @ post)" for q
    by (rule mid_gap) (simp_all add: str_def t)
  have b: "scan ?r q (BS # str ''label{sec:colloids}'' @ post) =
      map Gap (BS # str ''label{sec:colloids}'') @ scan ?r (rev (str ''label{sec:colloids}'') @ BS # q) post" for q
    by (rule mid_gap) (simp_all add: str_def t)
  have "scan ?r p ((BS # str ''section{Colloids}'' @ NL # BS # str ''label{sec:colloids}'') @ post)
      = map Gap (BS # str ''section{Colloids}'' @ NL # BS # str ''label{sec:colloids}'')
        @ scan ?r (rev (str ''label{sec:colloids}'') @ BS # rev (str ''section{Colloids}'' @ [NL]) @ BS # p) post"
    using a [of p] by (simp add: b)
  then show ?thesis
    by (simp add: rebuild_gaps_append del: map_append)
qed

lemma promote_other:
  assumes t: "BS \<notin> set t" "125 \<notin> set t"
    and inv: "\<not> unclosed (BS # str ''textbf{'' @ t) pre"
    and M: "M \<noteq> []" "hd M = BS"
    and q: "\<And>R p post. \<exists>post'. rebuild (map PLit R) None
              (scan (seq [LitI (BS # str ''textbf{'' @ t), Star (\<lambda>c. c \<noteq> 125), LitI (str ''}'')]) p
                 (M @ post)) = M @ post'"
  shows "\<exists>pre' post'. promote U (str ''section'') (str ''sec'') t (pre @ M @ post)
           = Some (pre' @ M @ post') \<and> carried pre pre'"
proof -
  let ?r = "seq [LitI (BS # str ''textbf{'' @ t), Star (\<lambda>c. c \<noteq> 125), LitI (str ''}'')]"
  obtain lab where lab: "promote U (str ''section'') (str ''sec'') t (pre @ M @ post) =
      Some (rebuild (map PLit (BS # str ''section'' @ str ''{'' @ t @ str ''}'' @ NL # BS # str ''label{''
              @ str ''sec'' @ str '':'' @ lab @ str ''}'')) None (scan ?r [] (pre @ M @ post)))"
    using promote_eq [of "str ''section''" "str ''sec''" t U "pre @ M @ post"] t(1)
    by (auto simp: str_def)
  let ?R = "BS # str ''section'' @ str ''{'' @ t @ str ''}'' @ NL # BS # str ''label{''
              @ str ''sec'' @ str '':'' @ lab @ str ''}''"
  have w: "BS \<notin> set (str ''textbf{'' @ t)" "125 \<notin> set (str ''textbf{'' @ t)"
    using t by (simp_all add: str_def)
  have R: "?R \<noteq> []" "last ?R = 125"
    by (simp_all add: str_def)
  have "\<exists>pre' post'. rebuild (map PLit ?R) None (scan ?r [] (pre @ M @ post)) = pre' @ M @ post'
          \<and> carried pre pre'"
  proof (rule bold_turn [OF w R M])
    fix p post2
    show "\<exists>post'. rebuild (map PLit ?R) None (scan ?r p (M @ post2)) = M @ post'"
      by (rule q)
  next
    fix x u p post2
    assume "pre = x @ u" "starts_ci (BS # str ''textbf{'' @ t) u" "125 \<notin> set u"
    then have "unclosed (BS # str ''textbf{'' @ t) pre"
      by (subst unclosed_iff) auto
    then show "\<exists>post'. rebuild (map PLit ?R) None (scan ?r p (u @ M @ post2)) = M @ post'"
      using inv by simp
  qed
  then show ?thesis
    by (simp only: lab option.inject)
qed

lemma fold_others:
  assumes M: "M \<noteq> []" "hd M = BS"
    and ts: "\<forall>t \<in> set ts. BS \<notin> set t \<and> 125 \<notin> set t \<and> \<not> unclosed (BS # str ''textbf{'' @ t) pre \<and>
               (\<forall>R p post. \<exists>post'. rebuild (map PLit R) None
                  (scan (seq [LitI (BS # str ''textbf{'' @ t), Star (\<lambda>c. c \<noteq> 125), LitI (str ''}'')]) p
                     (M @ post)) = M @ post')"
  shows "\<exists>pre' post'. fold_option (promote U (str ''section'') (str ''sec'')) ts (pre @ M @ post)
           = Some (pre' @ M @ post') \<and> (\<forall>w. w \<noteq> [] \<longrightarrow> \<not> unclosed w pre \<longrightarrow> \<not> unclosed w pre')"
  using ts
proof (induction ts arbitrary: pre post)
  case Nil
  show ?case by auto
next
  case (Cons t ts)
  have t: "BS \<notin> set t" "125 \<notin> set t" "\<not> unclosed (BS # str ''textbf{'' @ t) pre"
    using Cons.prems by simp_all
  have q: "\<exists>post'. rebuild (map PLit R) None
              (scan (seq [LitI (BS # str ''textbf{'' @ t), Star (\<lambda>c. c \<noteq> 125), LitI (str ''}'')]) p
                 (M @ post2)) = M @ post'" for R p post2
    using Cons.prems by simp
  obtain pre1 post1 where s1: "promote U (str ''section'') (str ''sec'') t (pre @ M @ post)
      = Some (pre1 @ M @ post1)" and c1: "carried pre pre1"
    using promote_other [OF t M q] by blast
  have keep: "\<not> unclosed w pre1" if "w \<noteq> []" "\<not> unclosed w pre" for w
    using carried_unclosed [OF c1 that(2,1)] .
  have "\<forall>t \<in> set ts. BS \<notin> set t \<and> 125 \<notin> set t \<and> \<not> unclosed (BS # str ''textbf{'' @ t) pre1 \<and>
               (\<forall>R p post. \<exists>post'. rebuild (map PLit R) None
                  (scan (seq [LitI (BS # str ''textbf{'' @ t), Star (\<lambda>c. c \<noteq> 125), LitI (str ''}'')]) p
                     (M @ post)) = M @ post')"
    using Cons.prems keep by simp
  from Cons.IH [OF this, of post1] obtain pre' post' where
    s2: "fold_option (promote U (str ''section'') (str ''sec'')) ts (pre1 @ M @ post1) = Some (pre' @ M @ post')"
    and k2: "\<forall>w. w \<noteq> [] \<longrightarrow> \<not> unclosed w pre1 \<longrightarrow> \<not> unclosed w pre'"
    by blast
  have "fold_option (promote U (str ''section'') (str ''sec'')) (t # ts) (pre @ M @ post) = Some (pre' @ M @ post')"
    using s1 s2 by simp
  moreover have "\<forall>w. w \<noteq> [] \<longrightarrow> \<not> unclosed w pre \<longrightarrow> \<not> unclosed w pre'"
    using keep k2 by blast
  ultimately show ?case by blast
qed

lemma fold_option_append:
  "fold_option f (xs @ ys) s = (case fold_option f xs s of None \<Rightarrow> None | Some s' \<Rightarrow> fold_option f ys s')"
  by (induction xs arbitrary: s) (auto split: option.splits)

lemma sections_split:
  "SECTION_PATTERNS =
     [str ''Developing Circular Economies'',
      str ''Meeting Global Demand and Feedstock Diversification'',
      str ''Emerging Technological Interest'',
      str ''Problem Statement and Research Motivation'',
      str ''Research Objectives and Scope'',
      str ''Molecular Structure and Colloidal Stabilization''] @
     str ''Colloids'' #
     [str ''The Theory of Natural Rubber Latex'',
      str ''Suspensions Rheology and Theoretical Models'',
      str ''Additive Manufacturing'',
      str ''Sourcing, Traceability, and Rationale'',
      str ''Spectroscopic and Analytical Reagents'',
      str ''Rheological Characterization'',
      str ''Nuclear Magnetic Resonance'',
      str ''Components and Protocols'',
      str ''Material Characterizations'',
      str ''Mechanical Characterizations'',
      str ''DLP 3D Printing'']"
  by (simp add: SECTION_PATTERNS_def)

lemma other_titles:
  assumes "t \<in> set SECTION_PATTERNS" "t \<noteq> str ''Colloids''"
  shows "BS \<notin> set t \<and> 125 \<notin> set t \<and> 8 < length t"
  using assms by (auto simp: SECTION_PATTERNS_def str_def)

lemma colloids_hit:
  assumes "u = [] \<or> starts_ci (BS # str ''textbf{'' @ str ''Colloids'') u" "125 \<notin> set u"
  shows "\<exists>post'. rebuild (map PLit R) None
           (scan (seq [LitI (BS # str ''textbf{'' @ str ''Colloids''), Star (\<lambda>c. c \<noteq> 125), LitI (str ''}'')]) p
              (u @ (BS # str ''textbf{Colloids}'') @ post)) = R @ post'"
proof -
  let ?w = "BS # str ''textbf{'' @ str ''Colloids''"
  let ?X = "BS # str ''textbf{Colloids}''"
  let ?r = "seq [LitI ?w, Star (\<lambda>c. c \<noteq> 125), LitI (str ''}'')]"
  let ?P = "\<lambda>c::nat. c \<noteq> 125"
  have x: "starts_ci ?w (?X @ post)"
    by (simp add: str_def ci_eq_def ascii_letter_def ascii_upper_letter_def ascii_lower_letter_def
        ascii_lower_def ascii_upper_def)
  have sc: "starts_ci ?w (u @ ?X @ post)"
    using assms(1) x starts_ci_append by auto
  have len: "u = [] \<or> length ?w \<le> length u"
    using assms(1) starts_ci_length by blast
  have dr: "drop (length ?w) (u @ ?X @ post) = drop (length ?w) u @ drop (length ?w - length u) (?X @ post)"
    by simp
  have dx: "dropWhile ?P (drop (length ?w - length u) (?X @ post)) = 125 # post"
    using len by (auto simp: str_def)
  have du: "\<forall>c \<in> set (drop (length ?w) u). ?P c"
    using assms(2) by (auto dest: in_set_dropD)
  have dw: "dropWhile ?P (drop (length ?w) (u @ ?X @ post)) = 125 # post"
    unfolding dr using du dx by (simp add: dropWhile_append2)
  have "125 \<in> set (dropWhile ?P (drop (length ?w) (u @ ?X @ post)))"
    unfolding dw by simp
  then have br: "125 \<in> set (drop (length ?w) (u @ ?X @ post))"
    using set_dropWhileD by metis
  obtain m where fm: "first_match ?r p (u @ ?X @ post) = Some m"
    and rem: "remaining m = post" and cap: "captures m = []"
    using first_match_bold_Some [OF sc br, of p] unfolding dw by auto
  have lt: "length post < length (u @ ?X @ post)"
    by simp
  have "scan ?r p (u @ ?X @ post) =
          Hit (take (length (u @ ?X @ post) - length post) (u @ ?X @ post)) [] # scan ?r (consumed m) post"
    by (subst scan.simps) (simp only: fm option.case rem lt if_True cap)
  then have "rebuild (map PLit R) None (scan ?r p (u @ ?X @ post))
      = R @ rebuild (map PLit R) None (scan ?r (consumed m) post)"
    by simp
  then show ?thesis by blast
qed

lemma promote_colloids_turn:
  assumes low: "u_lower U (str ''Colloids'') = str ''colloids''"
  shows "\<exists>pre' post'. promote U (str ''section'') (str ''sec'') (str ''Colloids'')
           (pre @ (BS # str ''textbf{Colloids}'') @ post)
         = Some (pre' @ (BS # str ''section{Colloids}'' @ NL # BS # str ''label{sec:colloids}'') @ post')
           \<and> carried pre pre'"
proof -
  let ?X = "BS # str ''textbf{Colloids}''"
  let ?Y = "BS # str ''section{Colloids}'' @ NL # BS # str ''label{sec:colloids}''"
  let ?r = "seq [LitI (BS # str ''textbf{'' @ str ''Colloids''), Star (\<lambda>c. c \<noteq> 125), LitI (str ''}'')]"
  have lab: "slugify U (str '':,'') (str ''Colloids'') = Some (str ''colloids'')"
    unfolding slugify_eq low
    by (simp add: str_def slug_char_def ascii_lower_letter_def ascii_digit_def)
  have "\<exists>lab. slugify U (str '':,'') (str ''Colloids'') = Some lab \<and>
      promote U (str ''section'') (str ''sec'') (str ''Colloids'') (pre @ ?X @ post) =
      Some (rebuild (map PLit (BS # str ''section'' @ str ''{'' @ str ''Colloids'' @ str ''}'' @ NL # BS
              # str ''label{'' @ str ''sec'' @ str '':'' @ lab @ str ''}'')) None (scan ?r [] (pre @ ?X @ post)))"
    by (rule promote_eq) (simp_all add: str_def)
  then have pr: "promote U (str ''section'') (str ''sec'') (str ''Colloids'') (pre @ ?X @ post) =
      Some (rebuild (map PLit (BS # str ''section'' @ str ''{'' @ str ''Colloids'' @ str ''}'' @ NL # BS
              # str ''label{'' @ str ''sec'' @ str '':'' @ str ''colloids'' @ str ''}'')) None
              (scan ?r [] (pre @ ?X @ post)))"
    using lab by auto
  have Y: "BS # str ''section'' @ str ''{'' @ str ''Colloids'' @ str ''}'' @ NL # BS
              # str ''label{'' @ str ''sec'' @ str '':'' @ str ''colloids'' @ str ''}'' = ?Y"
    by (simp add: str_def)
  have w: "BS \<notin> set (str ''textbf{'' @ str ''Colloids'')" "125 \<notin> set (str ''textbf{'' @ str ''Colloids'')"
    by (simp_all add: str_def)
  have R: "?Y \<noteq> []" "last ?Y = 125"
    by (simp_all add: str_def)
  have M: "?X \<noteq> []" "hd ?X = BS"
    by simp_all
  have "\<exists>pre' post'. rebuild (map PLit ?Y) None (scan ?r [] (pre @ ?X @ post)) = pre' @ ?Y @ post'
          \<and> carried pre pre'"
  proof (rule bold_turn [OF w R M])
    fix p post2
    show "\<exists>post'. rebuild (map PLit ?Y) None (scan ?r p (?X @ post2)) = ?Y @ post'"
      using colloids_hit [of "[]" ?Y p post2] by simp
  next
    fix x u p post2
    assume "pre = x @ u" "starts_ci (BS # str ''textbf{'' @ str ''Colloids'') u" "125 \<notin> set u"
    then show "\<exists>post'. rebuild (map PLit ?Y) None (scan ?r p (u @ ?X @ post2)) = ?Y @ post'"
      using colloids_hit [of u ?Y p post2] by simp
  qed
  then show ?thesis
    unfolding pr Y by simp
qed

lemma colloids_loop:
  assumes inv: "\<forall>t \<in> set SECTION_PATTERNS. t \<noteq> str ''Colloids'' \<longrightarrow>
                  \<not> unclosed (BS # str ''textbf{'' @ t) pre"
    and low: "u_lower U (str ''Colloids'') = str ''colloids''"
  shows "\<exists>pre' post'.
           fold_option (promote U (str ''section'') (str ''sec'')) SECTION_PATTERNS
             (pre @ BS # str ''textbf{Colloids}'' @ post)
           = Some (pre' @ BS # str ''section{Colloids}'' @ NL # BS # str ''label{sec:colloids}'' @ post')"
proof -
  let ?X = "BS # str ''textbf{Colloids}''"
  let ?Y = "BS # str ''section{Colloids}'' @ NL # BS # str ''label{sec:colloids}''"
  let ?f = "promote U (str ''section'') (str ''sec'')"
  let ?B = "[str ''Developing Circular Economies'',
      str ''Meeting Global Demand and Feedstock Diversification'',
      str ''Emerging Technological Interest'',
      str ''Problem Statement and Research Motivation'',
      str ''Research Objectives and Scope'',
      str ''Molecular Structure and Colloidal Stabilization'']"
  let ?A = "[str ''The Theory of Natural Rubber Latex'',
      str ''Suspensions Rheology and Theoretical Models'',
      str ''Additive Manufacturing'',
      str ''Sourcing, Traceability, and Rationale'',
      str ''Spectroscopic and Analytical Reagents'',
      str ''Rheological Characterization'',
      str ''Nuclear Magnetic Resonance'',
      str ''Components and Protocols'',
      str ''Material Characterizations'',
      str ''Mechanical Characterizations'',
      str ''DLP 3D Printing'']"
  have Bmem: "t \<in> set SECTION_PATTERNS \<and> t \<noteq> str ''Colloids''" if "t \<in> set ?B" for t
    using that unfolding sections_split by (auto simp: str_def)
  have Amem: "t \<in> set SECTION_PATTERNS \<and> t \<noteq> str ''Colloids''" if "t \<in> set ?A" for t
    using that unfolding sections_split by (auto simp: str_def)
  have MX: "?X \<noteq> []" "hd ?X = BS" by simp_all
  have MY: "?Y \<noteq> []" "hd ?Y = BS" by simp_all
  have tsB: "\<forall>t \<in> set ?B. BS \<notin> set t \<and> 125 \<notin> set t \<and> \<not> unclosed (BS # str ''textbf{'' @ t) pre \<and>
               (\<forall>R p post. \<exists>post'. rebuild (map PLit R) None
                  (scan (seq [LitI (BS # str ''textbf{'' @ t), Star (\<lambda>c. c \<noteq> 125), LitI (str ''}'')]) p
                     (?X @ post)) = ?X @ post')"
  proof
    fix t assume "t \<in> set ?B"
    then have m: "t \<in> set SECTION_PATTERNS" "t \<noteq> str ''Colloids''"
      using Bmem by blast+
    from other_titles [OF m] inv m mid_other_at_colloids [of t]
    show "BS \<notin> set t \<and> 125 \<notin> set t \<and> \<not> unclosed (BS # str ''textbf{'' @ t) pre \<and>
               (\<forall>R p post. \<exists>post'. rebuild (map PLit R) None
                  (scan (seq [LitI (BS # str ''textbf{'' @ t), Star (\<lambda>c. c \<noteq> 125), LitI (str ''}'')]) p
                     (?X @ post)) = ?X @ post')"
      by blast
  qed
  obtain pre1 post1 where
    s1: "fold_option ?f ?B (pre @ ?X @ post) = Some (pre1 @ ?X @ post1)"
    and k1: "\<forall>w. w \<noteq> [] \<longrightarrow> \<not> unclosed w pre \<longrightarrow> \<not> unclosed w pre1"
    using fold_others [OF MX tsB, of U post] by blast
  obtain pre2 post2 where
    s2: "?f (str ''Colloids'') (pre1 @ ?X @ post1) = Some (pre2 @ ?Y @ post2)"
    and c2: "carried pre1 pre2"
    using promote_colloids_turn [OF low, of pre1 post1] by blast
  have tsA: "\<forall>t \<in> set ?A. BS \<notin> set t \<and> 125 \<notin> set t \<and> \<not> unclosed (BS # str ''textbf{'' @ t) pre2 \<and>
               (\<forall>R p post. \<exists>post'. rebuild (map PLit R) None
                  (scan (seq [LitI (BS # str ''textbf{'' @ t), Star (\<lambda>c. c \<noteq> 125), LitI (str ''}'')]) p
                     (?Y @ post)) = ?Y @ post')"
  proof
    fix t assume "t \<in> set ?A"
    then have m: "t \<in> set SECTION_PATTERNS" "t \<noteq> str ''Colloids''"
      using Amem by blast+
    have "\<not> unclosed (BS # str ''textbf{'' @ t) pre"
      using inv m by blast
    then have "\<not> unclosed (BS # str ''textbf{'' @ t) pre1"
      using k1 by simp
    then have "\<not> unclosed (BS # str ''textbf{'' @ t) pre2"
      using carried_unclosed [OF c2] by simp
    with other_titles [OF m] mid_at_section [of _ t]
    show "BS \<notin> set t \<and> 125 \<notin> set t \<and> \<not> unclosed (BS # str ''textbf{'' @ t) pre2 \<and>
               (\<forall>R p post. \<exists>post'. rebuild (map PLit R) None
                  (scan (seq [LitI (BS # str ''textbf{'' @ t), Star (\<lambda>c. c \<noteq> 125), LitI (str ''}'')]) p
                     (?Y @ post)) = ?Y @ post')"
      by blast
  qed
  obtain pre3 post3 where
    s3: "fold_option ?f ?A (pre2 @ ?Y @ post2) = Some (pre3 @ ?Y @ post3)"
    using fold_others [OF MY tsA, of U post2] by blast
  have "fold_option ?f (?B @ str ''Colloids'' # ?A) (pre @ ?X @ post)
          = fold_option ?f (str ''Colloids'' # ?A) (pre1 @ ?X @ post1)"
    by (simp only: fold_option_append s1 option.case)
  also have "\<dots> = fold_option ?f ?A (pre2 @ ?Y @ post2)"
    by (simp only: fold_option.simps(2) s2 option.case)
  also have "\<dots> = Some (pre3 @ ?Y @ post3)"
    by (rule s3)
  finally have "fold_option ?f SECTION_PATTERNS (pre @ ?X @ post) = Some (pre3 @ ?Y @ post3)"
    unfolding sections_split .
  then show ?thesis
    by (metis append_Cons append_assoc)
qed



lemma scan_end:
  "scan (seq [LitI (BS # w), Star (\<lambda>c. c \<noteq> 125), LitI (str ''}'')]) p [] = []"
proof -
  have "first_match (seq [LitI (BS # w), Star (\<lambda>c. c \<noteq> 125), LitI (str ''}'')]) p [] = None"
    by (rule first_match_bold_None) simp
  then show ?thesis
    by (subst scan.simps) simp
qed

lemma nested_no_hit:
  assumes "BS \<notin> set t" "t \<noteq> []" "\<not> ci_eq (hd t) 69" "\<not> ci_eq (hd t) 67"
  shows "promote U (str ''section'') (str ''sec'') t
           (BS # str ''textbf{Emerging Technological Interest '' @ BS # str ''textbf{Colloids}'')
         = Some (BS # str ''textbf{Emerging Technological Interest '' @ BS # str ''textbf{Colloids}'')"
proof -
  let ?r = "seq [LitI (BS # str ''textbf{'' @ t), Star (\<lambda>c. c \<noteq> 125), LitI (str ''}'')]"
  let ?u1 = "str ''textbf{Emerging Technological Interest ''"
  let ?u2 = "str ''textbf{Colloids}''"
  obtain h t' where ht: "t = h # t'" using assms(2) by (cases t) auto
  have n1: "\<not> starts_ci (BS # str ''textbf{'' @ t) (BS # ?u1 @ (BS # ?u2 @ []))"
    using assms(3) by (simp add: ht str_def)
  have n2: "\<not> starts_ci (BS # str ''textbf{'' @ t) (BS # ?u2 @ [])"
    using assms(4) by (simp add: ht str_def ci_eq_def ascii_letter_def ascii_upper_letter_def
        ascii_lower_letter_def ascii_lower_def ascii_upper_def)
  have b1: "BS \<notin> set ?u1" and b2: "BS \<notin> set ?u2"
    by (simp_all add: str_def)
  have "scan ?r [] (BS # ?u1 @ (BS # ?u2 @ [])) = map Gap (BS # ?u1 @ (BS # ?u2 @ []))"
    unfolding mid_gap [OF n1 b1] mid_gap [OF n2 b2] scan_end by simp
  then have sc: "scan ?r [] (BS # ?u1 @ BS # ?u2) = map Gap (BS # ?u1 @ BS # ?u2)"
    by simp
  obtain lab where "promote U (str ''section'') (str ''sec'') t (BS # ?u1 @ BS # ?u2) =
      Some (rebuild (map PLit (BS # str ''section'' @ str ''{'' @ t @ str ''}'' @ NL # BS # str ''label{''
              @ str ''sec'' @ str '':'' @ lab @ str ''}'')) None (scan ?r [] (BS # ?u1 @ BS # ?u2)))"
    using promote_eq [of "str ''section''" "str ''sec''" t U "BS # ?u1 @ BS # ?u2"] assms(1)
    by (auto simp: str_def)
  then show ?thesis
    unfolding sc by (simp only: rebuild_gaps)
qed

lemma nested_swallowed:
  "promote ascii_only (str ''section'') (str ''sec'') (str ''Emerging Technological Interest'')
           (BS # str ''textbf{Emerging Technological Interest '' @ BS # str ''textbf{Colloids}'')
   = Some (BS # str ''section{Emerging Technological Interest}'' @ NL #
           BS # str ''label{sec:emerging-technological-interest}'')"
proof -
  let ?t = "str ''Emerging Technological Interest''"
  let ?w = "BS # str ''textbf{'' @ ?t"
  let ?r = "seq [LitI ?w, Star (\<lambda>c. c \<noteq> 125), LitI (str ''}'')]"
  let ?ex = "BS # str ''textbf{Emerging Technological Interest '' @ BS # str ''textbf{Colloids}''"
  let ?out = "BS # str ''section{Emerging Technological Interest}'' @ NL #
           BS # str ''label{sec:emerging-technological-interest}''"
  have lab: "slugify ascii_only (str '':,'') ?t = Some (str ''emerging-technological-interest'')"
    unfolding slugify_eq
    by (simp add: ascii_only_def str_def slug_char_def ascii_lower_letter_def ascii_digit_def
        ascii_lower_def ascii_upper_letter_def)
  have "\<exists>lab. slugify ascii_only (str '':,'') ?t = Some lab \<and>
      promote ascii_only (str ''section'') (str ''sec'') ?t ?ex =
      Some (rebuild (map PLit (BS # str ''section'' @ str ''{'' @ ?t @ str ''}'' @ NL # BS
              # str ''label{'' @ str ''sec'' @ str '':'' @ lab @ str ''}'')) None (scan ?r [] ?ex))"
    by (rule promote_eq) (simp_all add: str_def)
  then have pr: "promote ascii_only (str ''section'') (str ''sec'') ?t ?ex =
      Some (rebuild (map PLit (BS # str ''section'' @ str ''{'' @ ?t @ str ''}'' @ NL # BS
              # str ''label{'' @ str ''sec'' @ str '':'' @ str ''emerging-technological-interest''
              @ str ''}'')) None (scan ?r [] ?ex))"
    using lab by auto
  have sc: "starts_ci ?w ?ex"
    by (simp add: str_def ci_eq_def ascii_letter_def ascii_upper_letter_def ascii_lower_letter_def
        ascii_lower_def ascii_upper_def)
  have br: "125 \<in> set (drop (length ?w) ?ex)"
    by (simp add: str_def)
  have dw: "tl (dropWhile (\<lambda>c. c \<noteq> 125) (drop (length ?w) ?ex)) = []"
    by (simp add: str_def)
  obtain m where fm: "first_match ?r [] ?ex = Some m"
    and rem: "remaining m = []" and cap: "captures m = []"
    using first_match_bold_Some [OF sc br, of "[]"] unfolding dw by auto
  have lt: "length ([]::pystr) < length ?ex" by simp
  have "scan ?r [] ?ex = Hit (take (length ?ex - length ([]::pystr)) ?ex) [] # scan ?r (consumed m) []"
    by (subst scan.simps) (simp only: fm option.case rem lt if_True cap)
  then have "scan ?r [] ?ex = [Hit ?ex []]"
    by (simp add: scan_end)
  then show ?thesis
    unfolding pr by (simp add: str_def)
qed


end
